theory Spec2Isabelle
  imports Complex_Main "HOL-Library.AList"
begin

section \<open>Data model of chatbot/conversation.py\<close>

text \<open>
  A \<open>datetime\<close> is a naive point in time, counted in microseconds (the resolution of
  Python's datetime); a timedelta is a difference of two of them. \<open>time.time()\<close>
  returns seconds as a float, read here as a real number.
\<close>

type_synonym datetime = int

definition timedelta_hours :: "int \<Rightarrow> int" where
  "timedelta_hours h = h * 3600 * 1000000"

definition total_seconds :: "int \<Rightarrow> real" where
  "total_seconds d = real_of_int d / 1000000"

text \<open>
  The values the manager puts into metadata dictionaries. \<open>PIso t\<close> stands for the
  string \<open>t.isoformat()\<close>: the rendering is injective and its characters are not needed.
\<close>

datatype pyval = PStr string | PIso datetime | PInt int | PFloat real

text \<open>
  A Python dict keeps insertion order: an association list with distinct keys, where
  \<open>AList.update\<close> overwrites in place or appends, and \<open>AList.delete\<close> is \<open>del d[k]\<close>.
\<close>

type_synonym pydict = "(string \<times> pyval) list"

record message =
  role :: string
  content :: string
  timestamp :: datetime
  msg_metadata :: pydict

text \<open>
  \<open>obj_id\<close> is the identity of the Python object (what \<open>is\<close> observes): two
  Conversation objects built by two constructor calls differ even when every field agrees.
\<close>

record conversation =
  call_sid :: string
  from_number :: string
  to_number :: string
  start_time :: datetime
  messages :: "message list"
  is_active :: bool
  metadata :: pydict
  obj_id :: nat

type_synonym store = "(string \<times> conversation) list"

text \<open>\<open>next_obj\<close> is the allocation counter that hands out object identities.\<close>

record manager =
  conversations :: store
  max_conversations :: int
  cleanup_interval :: int
  last_cleanup :: real
  next_obj :: nat

text \<open>\<open>ConversationManager.__init__\<close>; \<open>t\<close> is the reading of \<open>time.time()\<close>.\<close>

definition init_manager :: "int \<Rightarrow> int \<Rightarrow> real \<Rightarrow> manager" where
  "init_manager maxc interval t =
     \<lparr>conversations = [], max_conversations = maxc, cleanup_interval = interval,
      last_cleanup = t, next_obj = 0\<rparr>"

section \<open>The eviction pass: \<open>_cleanup_old_conversations\<close>\<close>

text \<open>Lines 303-308: the keys of the inactive conversations started before the cutoff.\<close>

definition old_conversations :: "datetime \<Rightarrow> store \<Rightarrow> string list" where
  "old_conversations now convs =
     (let cutoff_time = now - timedelta_hours 24
      in map fst (filter (\<lambda>(k, c). start_time c < cutoff_time \<and> \<not> is_active c) convs))"

text \<open>Lines 311-312: \<open>for call_sid in old_conversations: del self.conversations[call_sid]\<close>.\<close>

definition cleanup_age :: "datetime \<Rightarrow> store \<Rightarrow> store" where
  "cleanup_age now convs = fold AList.delete (old_conversations now convs) convs"

text \<open>
  Lines 326-328: the loop over \<open>sorted_conversations\<close>; \<open>inactive\<close> is the key set of the
  snapshot \<open>inactive_conversations\<close>, \<open>convs\<close> the live dictionary.
\<close>

fun evict_loop :: "int \<Rightarrow> string list \<Rightarrow> (string \<times> conversation) list \<Rightarrow> store \<Rightarrow> store" where
  "evict_loop maxc inactive [] convs = convs"
| "evict_loop maxc inactive ((k, c) # rest) convs =
     (if k \<in> set inactive \<and> int (length convs) > maxc
      then evict_loop maxc inactive rest (AList.delete k convs)
      else evict_loop maxc inactive rest convs)"

text \<open>Lines 315-328. Python's \<open>sorted\<close> is stable, as \<open>sort_key\<close> is.\<close>

definition cleanup_capacity :: "int \<Rightarrow> store \<Rightarrow> store" where
  "cleanup_capacity maxc convs =
     (if int (length convs) > maxc
      then let sorted_conversations = sort_key (\<lambda>x. start_time (snd x)) convs;
               inactive_conversations = filter (\<lambda>(k, v). \<not> is_active v) convs
           in evict_loop maxc (map fst inactive_conversations) sorted_conversations convs
      else convs)"

text \<open>
  The whole pass; \<open>t\<close> is \<open>time.time()\<close> and \<open>now\<close> is the \<open>datetime.now()\<close> of line 303.
\<close>

definition cleanup_old_conversations :: "manager \<Rightarrow> real \<Rightarrow> datetime \<Rightarrow> manager" where
  "cleanup_old_conversations s t now =
     (if t - last_cleanup s < real_of_int (cleanup_interval s) then s
      else s\<lparr>conversations := cleanup_capacity (max_conversations s) (cleanup_age now (conversations s)),
             last_cleanup := t\<rparr>)"

section \<open>Lookup, append, history, end\<close>

text \<open>\<open>x or "unknown"\<close>: None and the empty string are both falsy.\<close>

definition or_unknown :: "string option \<Rightarrow> string" where
  "or_unknown x = (case x of None \<Rightarrow> ''unknown'' | Some v \<Rightarrow> (if v = [] then ''unknown'' else v))"

definition or_empty :: "pydict option \<Rightarrow> pydict" where
  "or_empty x = (case x of None \<Rightarrow> [] | Some d \<Rightarrow> d)"

text \<open>
  The clock readings of one \<open>get_conversation\<close> call: \<open>time.time()\<close> and \<open>datetime.now()\<close>
  inside the eviction pass, and \<open>datetime.now()\<close> at construction.
\<close>

type_synonym gc_reads = "real \<times> datetime \<times> datetime"

definition new_conversation :: "string \<Rightarrow> string option \<Rightarrow> string option \<Rightarrow> datetime \<Rightarrow> nat \<Rightarrow> conversation" where
  "new_conversation cs fromn ton now oid =
     \<lparr>call_sid = cs, from_number = or_unknown fromn, to_number = or_unknown ton,
      start_time = now, messages = [], is_active = True, metadata = [], obj_id = oid\<rparr>"

text \<open>
  Returns the conversation found or created (in Python a reference to the stored object)
  and the manager afterwards.
\<close>

definition get_conversation ::
  "manager \<Rightarrow> string \<Rightarrow> string option \<Rightarrow> string option \<Rightarrow> gc_reads \<Rightarrow> conversation \<times> manager" where
  "get_conversation s cs fromn ton rd =
     (case rd of (t, now_cleanup, now_create) \<Rightarrow>
        (let s1 = cleanup_old_conversations s t now_cleanup
         in (case map_of (conversations s1) cs of
               None \<Rightarrow>
                 (let conv = new_conversation cs fromn ton now_create (next_obj s1)
                  in (conv, s1\<lparr>conversations := AList.update cs conv (conversations s1),
                              next_obj := Suc (next_obj s1)\<rparr>))
             | Some conv \<Rightarrow> (conv, s1))))"

text \<open>
  \<open>add_message\<close>: the object returned by \<open>get_conversation\<close> is the stored one, so the
  append and the metadata writes land in the store. \<open>now_ts\<close> and \<open>now_act\<close> are the
  \<open>datetime.now()\<close> readings of lines 116 and 123.
\<close>

definition add_message ::
  "manager \<Rightarrow> string \<Rightarrow> string \<Rightarrow> string \<Rightarrow> pydict option \<Rightarrow> gc_reads \<Rightarrow> datetime \<Rightarrow> datetime
     \<Rightarrow> bool \<times> manager" where
  "add_message s cs r txt md rd now_ts now_act =
     (case get_conversation s cs None None rd of (conv, s1) \<Rightarrow>
        let msg = \<lparr>role = r, content = txt, timestamp = now_ts, msg_metadata = or_empty md\<rparr>;
            msgs = messages conv @ [msg];
            conv' = conv\<lparr>messages := msgs,
                        metadata := AList.update ''message_count'' (PInt (int (length msgs)))
                                      (AList.update ''last_activity'' (PIso now_act) (metadata conv))\<rparr>
        in (True, s1\<lparr>conversations := AList.update cs conv' (conversations s1)\<rparr>))"

text \<open>The dictionary built per message in \<open>get_history\<close> and \<open>export_conversation\<close>.\<close>

record message_view =
  v_role :: string
  v_content :: string
  v_timestamp :: pyval
  v_metadata :: pydict

definition view_of :: "message \<Rightarrow> message_view" where
  "view_of m = \<lparr>v_role = role m, v_content = content m, v_timestamp = PIso (timestamp m),
               v_metadata = msg_metadata m\<rparr>"

text \<open>Python's \<open>xs[-limit:]\<close> for \<open>limit > 0\<close>: the slice starts at \<open>max(len(xs) - limit, 0)\<close>.\<close>

definition recent_messages :: "int \<Rightarrow> message list \<Rightarrow> message list" where
  "recent_messages limit ms =
     (if limit > 0 then drop (nat (max 0 (int (length ms) - limit))) ms else ms)"

definition get_history :: "manager \<Rightarrow> string \<Rightarrow> int \<Rightarrow> gc_reads \<Rightarrow> message_view list \<times> manager" where
  "get_history s cs limit rd =
     (case get_conversation s cs None None rd of (conv, s1) \<Rightarrow>
        (map view_of (recent_messages limit (messages conv)), s1))"

text \<open>
  \<open>end_conversation\<close>; \<open>now_end\<close> and \<open>now_dur\<close> are the two \<open>datetime.now()\<close> readings of
  lines 180 and 182.
\<close>

definition end_conversation :: "manager \<Rightarrow> string \<Rightarrow> datetime \<Rightarrow> datetime \<Rightarrow> bool \<times> manager" where
  "end_conversation s cs now_end now_dur =
     (case map_of (conversations s) cs of
        Some conv \<Rightarrow>
          (let conv' = conv\<lparr>is_active := False,
                           metadata := AList.update ''duration'' (PFloat (total_seconds (now_dur - start_time conv)))
                                         (AList.update ''end_time'' (PIso now_end) (metadata conv))\<rparr>
           in (True, s\<lparr>conversations := AList.update cs conv' (conversations s)\<rparr>))
      | None \<Rightarrow> (False, s))"

section \<open>Statistics, search, export\<close>

text \<open>
  The dictionary of \<open>get_conversation_stats\<close>; \<open>matching_message\<close> is the key that
  \<open>search_conversations\<close> adds, absent (None) otherwise.
\<close>

record summary =
  s_call_sid :: string
  s_from_number :: string
  s_to_number :: string
  s_start_time :: pyval
  s_is_active :: bool
  total_messages :: nat
  user_messages :: nat
  assistant_messages :: nat
  duration_seconds :: real
  s_metadata :: pydict
  matching_message :: "string option"

type_synonym stats_reads = "gc_reads \<times> datetime"

definition get_conversation_stats :: "manager \<Rightarrow> string \<Rightarrow> stats_reads \<Rightarrow> summary \<times> manager" where
  "get_conversation_stats s cs rd =
     (case rd of (gc, now_dur) \<Rightarrow>
      case get_conversation s cs None None gc of (conv, s1) \<Rightarrow>
        let user_msgs = filter (\<lambda>m. role m = ''user'') (messages conv);
            assistant_msgs = filter (\<lambda>m. role m = ''assistant'') (messages conv)
        in (\<lparr>s_call_sid = cs, s_from_number = from_number conv, s_to_number = to_number conv,
             s_start_time = PIso (start_time conv), s_is_active = is_active conv,
             total_messages = length (messages conv),
             user_messages = length user_msgs,
             assistant_messages = length assistant_msgs,
             duration_seconds = total_seconds (now_dur - start_time conv),
             s_metadata = metadata conv, matching_message = None\<rparr>, s1))"

record export_data =
  e_call_sid :: string
  e_from_number :: string
  e_to_number :: string
  e_start_time :: pyval
  e_is_active :: bool
  e_metadata :: pydict
  e_messages :: "message_view list"

definition export_conversation :: "manager \<Rightarrow> string \<Rightarrow> gc_reads \<Rightarrow> export_data \<times> manager" where
  "export_conversation s cs rd =
     (case get_conversation s cs None None rd of (conv, s1) \<Rightarrow>
        (\<lparr>e_call_sid = call_sid conv, e_from_number = from_number conv, e_to_number = to_number conv,
          e_start_time = PIso (start_time conv), e_is_active = is_active conv,
          e_metadata = metadata conv, e_messages = map view_of (messages conv)\<rparr>, s1))"

section \<open>Search: \<open>search_conversations\<close>\<close>

text \<open>
  The search depends on the interpreter in two places, and both are parameters of the
  model.

  \<^item> \<open>str_lower\<close> is \<open>str.lower()\<close>, the Unicode lower-casing of a text (here on its
    UTF-8 bytes, on which the substring test agrees with the one on code points).

  \<^item> The outer loop iterates \<open>self.conversations.values()\<close> while the loop body calls
    \<open>get_conversation_stats\<close>, which may delete entries (the eviction pass) and insert one
    (a conversation built anew). What the iterator of CPython 3.8 and later yields then
    depends on the entry table of the dictionary: \<open>gaps i\<close> is the number of emptied
    slots directly before the \<open>i\<close>-th stored entry when the call starts (left by earlier
    deletions), \<open>free_slots\<close> the number of slots still unused at the end of the table,
    and \<open>regrow n\<close> the number of unused slots after a resize of a dictionary that
    holds \<open>n\<close> entries. Emptied slots behind the last stored entry need no
    parameter: the iterator passes them only on its way to an entry inserted during the
    loop, and a conversation inserted during the loop has no message, so that no call of
    \<open>get_conversation_stats\<close> and no insertion follows.
\<close>

record interp =
  str_lower :: "string \<Rightarrow> string"
  gaps :: "nat \<Rightarrow> nat"
  free_slots :: nat
  regrow :: "nat \<Rightarrow> nat"

text \<open>The substring test \<open>needle in hay\<close>.\<close>

fun starts_with :: "string \<Rightarrow> string \<Rightarrow> bool" where
  "starts_with hay [] = True"
| "starts_with [] (n # ns) = False"
| "starts_with (h # hs) (n # ns) = (h = n \<and> starts_with hs ns)"

fun contains :: "string \<Rightarrow> string \<Rightarrow> bool" where
  "contains [] needle = (needle = [])"
| "contains (h # hs) needle = (starts_with (h # hs) needle \<or> contains hs needle)"

text \<open>The inner loop of lines 277-282: the content of the first matching message.\<close>

fun first_match :: "(string \<Rightarrow> string) \<Rightarrow> string \<Rightarrow> message list \<Rightarrow> string option" where
  "first_match lwr q [] = None"
| "first_match lwr q (m # ms) =
     (if contains (lwr (content m)) q then Some (content m) else first_match lwr q ms)"

text \<open>
  The entry table: a slot holds an entry or was emptied by a deletion. A deletion empties
  the slot and leaves the table as it is; an insertion goes to the end of the table, after
  a resize when no slot is free, and the resize moves the entries together.
\<close>

type_synonym slot = "(string \<times> conversation) option"

fun table_from :: "(nat \<Rightarrow> nat) \<Rightarrow> nat \<Rightarrow> store \<Rightarrow> slot list" where
  "table_from g i [] = []"
| "table_from g i (e # es) = replicate (g i) None @ Some e # table_from g (Suc i) es"

definition live :: "slot list \<Rightarrow> store" where
  "live slots = map the (filter (\<lambda>sl. sl \<noteq> None) slots)"

text \<open>
  The state of the values iterator: \<open>di_used\<close>, the size of the dictionary when the
  iteration started; \<open>ahead\<close>, the slots at and after the iterator's position;
  \<open>holes\<close>, the number of emptied slots before the position; \<open>free\<close>, the unused
  slots at the end of the table.
\<close>

record dict_iter =
  di_used :: nat
  ahead :: "slot list"
  holes :: nat
  free :: nat

text \<open>
  The iterator after it has yielded the first entry ahead, with \<open>rest\<close> the slots
  behind that entry: the emptied slots it passed over now lie before its position.
\<close>

definition next_iter :: "dict_iter \<Rightarrow> slot list \<Rightarrow> dict_iter" where
  "next_iter it rest =
     it\<lparr>ahead := rest, holes := holes it + length (takeWhile (\<lambda>sl. sl = None) (ahead it))\<rparr>"

text \<open>
  What one call of \<open>get_conversation_stats\<close> does to the table under the iterator;
  \<open>s\<close> is the manager before the call, \<open>s1\<close> after the call's eviction pass and
  \<open>s'\<close> after the call. Every deleted key empties its slot; those not ahead of the
  iterator lie before its position.
\<close>

definition iter_after_delete :: "manager \<Rightarrow> manager \<Rightarrow> dict_iter \<Rightarrow> dict_iter" where
  "iter_after_delete s s1 it =
     (let ahead1 = map (\<lambda>sl. case sl of None \<Rightarrow> None
                                | Some e \<Rightarrow> (if fst e \<in> fst ` set (conversations s1) then Some e else None))
                       (ahead it);
          removed = length (conversations s) - length (conversations s1);
          removed_ahead = length (live (ahead it)) - length (live ahead1)
      in it\<lparr>ahead := ahead1, holes := holes it + (removed - removed_ahead)\<rparr>)"

text \<open>
  An insertion into a dictionary of \<open>n\<close> entries. With no free slot the table is
  rebuilt without its emptied slots, so the iterator, whose position stays the same number,
  passes over as many entries as there were holes before it.
\<close>

definition iter_after_insert :: "interp \<Rightarrow> nat \<Rightarrow> dict_iter \<Rightarrow> string \<times> conversation \<Rightarrow> dict_iter" where
  "iter_after_insert py n it e =
     (if free it = 0
      then it\<lparr>ahead := drop (holes it) (map Some (live (ahead it)) @ [Some e]), holes := 0,
              free := regrow py n - 1\<rparr>
      else it\<lparr>ahead := ahead it @ [Some e], free := free it - 1\<rparr>)"

definition iter_after_call :: "interp \<Rightarrow> manager \<Rightarrow> stats_reads \<Rightarrow> manager \<Rightarrow> dict_iter \<Rightarrow> dict_iter" where
  "iter_after_call py s rd s' it =
     (case rd of ((t, now_cleanup, now_create), now_dur) \<Rightarrow>
        (let s1 = cleanup_old_conversations s t now_cleanup;
             inserted = drop (length (conversations s1)) (conversations s')
         in foldl (iter_after_insert py (length (conversations s1))) (iter_after_delete s s1 it) inserted))"

text \<open>
  The outer loop of lines 275-285, by recursion on the iterator's counter of entries
  still to yield (\<open>len\<close>). Each step of the iterator first compares the size of the
  dictionary with \<open>di_used\<close> and raises RuntimeError when they differ; it then moves to
  the next entry, ends the loop when there is none, and raises RuntimeError when there is
  one although the counter is used up. The \<open>except\<close> clause of line 289 turns the error
  into the empty list. \<open>clk i\<close> holds the clock readings of the \<open>i\<close>-th call of
  \<open>get_conversation_stats\<close>.
\<close>

fun search_loop ::
  "interp \<Rightarrow> string \<Rightarrow> int \<Rightarrow> (nat \<Rightarrow> stats_reads) \<Rightarrow> nat \<Rightarrow> dict_iter \<Rightarrow> manager \<Rightarrow> summary list
     \<Rightarrow> summary list \<times> manager" where
  "search_loop py q limit clk 0 it s results =
     (if length (conversations s) \<noteq> di_used it then ([], s)
      else if live (ahead it) = [] then (results, s)
      else ([], s))"
| "search_loop py q limit clk (Suc len) it s results =
     (if length (conversations s) \<noteq> di_used it then ([], s)
      else (case dropWhile (\<lambda>sl. sl = None) (ahead it) of
              [] \<Rightarrow> (results, s)
            | slot # rest \<Rightarrow>
                (let c = snd (the slot);
                     it1 = next_iter it rest
                 in (case first_match (str_lower py) q (messages c) of
                       None \<Rightarrow>
                         (if int (length results) \<ge> limit then (results, s)
                          else search_loop py q limit clk len it1 s results)
                     | Some found \<Rightarrow>
                         (case get_conversation_stats s (call_sid c) (clk (length results)) of
                            (stats, s') \<Rightarrow>
                              (let results' = results @ [stats\<lparr>matching_message := Some found\<rparr>]
                               in if int (length results') \<ge> limit then (results', s')
                                  else search_loop py q limit clk len
                                         (iter_after_call py s (clk (length results)) s' it1)
                                         s' results'))))))"

definition search_conversations ::
  "interp \<Rightarrow> manager \<Rightarrow> string \<Rightarrow> int \<Rightarrow> (nat \<Rightarrow> stats_reads) \<Rightarrow> summary list \<times> manager" where
  "search_conversations py s query limit clk =
     search_loop py (str_lower py query) limit clk (length (conversations s))
       \<lparr>di_used = length (conversations s), ahead = table_from (gaps py) 0 (conversations s),
        holes = 0, free = free_slots py\<rparr>
       s []"

text \<open>
  \<open>str.lower()\<close> on ASCII text, where it changes the letters A to Z only; and the
  number of unused slots CPython leaves after a resize: the new table has the least
  power of two, at least 8, that reaches three times the number of entries, and two
  thirds of it are usable.
\<close>

definition ascii_lower_char :: "char \<Rightarrow> char" where
  "ascii_lower_char c =
     (case map_of (zip ''ABCDEFGHIJKLMNOPQRSTUVWXYZ'' ''abcdefghijklmnopqrstuvwxyz'') c of
        Some l \<Rightarrow> l
      | None \<Rightarrow> c)"

definition ascii_lower :: "string \<Rightarrow> string" where
  "ascii_lower s = map ascii_lower_char s"

function table_size :: "nat \<Rightarrow> nat \<Rightarrow> nat" where
  "table_size sz n = (if n \<le> sz \<or> sz = 0 then sz else table_size (2 * sz) n)"
  by pat_completeness auto
termination
  by (relation "measure (\<lambda>(sz, n). n - sz)") auto

definition cpython_regrow :: "nat \<Rightarrow> nat" where
  "cpython_regrow n = (2 * table_size 8 (3 * n)) div 3 - n"


section \<open>Auxiliary notions for the proofs\<close>

text \<open>The keys the capacity sweep deletes: the oldest inactive ones, as many as exceed the cap.\<close>

definition evicted :: "int \<Rightarrow> store \<Rightarrow> string list" where
  "evicted maxc convs =
     map fst (take (nat (int (length convs) - maxc))
                (filter (\<lambda>e. \<not> is_active (snd e)) (sort_key (\<lambda>x. start_time (snd x)) convs)))"



section \<open>Example stores\<close>

definition ex_conv :: "string \<Rightarrow> datetime \<Rightarrow> bool \<Rightarrow> message list \<Rightarrow> nat \<Rightarrow> conversation" where
  "ex_conv cs st act ms oid =
     \<lparr>call_sid = cs, from_number = ''unknown'', to_number = ''unknown'', start_time = st,
      messages = ms, is_active = act, metadata = [], obj_id = oid\<rparr>"

definition ex_two_inactive :: manager where
  "ex_two_inactive =
     \<lparr>conversations = [(''A'', ex_conv ''A'' 10 False [] 0), (''B'', ex_conv ''B'' 20 False [] 1)],
      max_conversations = 2, cleanup_interval = 3600, last_cleanup = 0, next_obj = 2\<rparr>"

definition ex_third_active :: manager where
  "ex_third_active = snd (get_conversation ex_two_inactive ''C'' None None (10, 25, 30))"

definition ex_aged :: manager where
  "ex_aged =
     \<lparr>conversations = [(''OLD'', ex_conv ''OLD'' 270000000000 False [] 0),
                       (''NEW'', ex_conv ''NEW'' 277200000000 False [] 1)],
      max_conversations = 1000, cleanup_interval = 3600, last_cleanup = 0, next_obj = 2\<rparr>"

definition ex_two_active :: manager where
  "ex_two_active =
     snd (get_conversation
            (snd (get_conversation (init_manager 1 3600 0) ''CA1'' None None (1, 1000000, 1000000)))
            ''CA2'' None None (2, 2000000, 2000000))"


definition ex_one :: manager where
  "ex_one = snd (get_conversation (init_manager 1000 3600 0) ''CA1'' None None (1, 1000000, 1000000))"

section \<open>Sequences of appends\<close>

text \<open>
  One \<open>add_message\<close> call on a fixed call_sid: role, content, metadata and the clock
  readings taken during the call; the message it builds; and a run of such calls in order,
  collecting the success flags.
\<close>

type_synonym append_call = "string \<times> string \<times> pydict option \<times> gc_reads \<times> datetime \<times> datetime"

fun message_of :: "append_call \<Rightarrow> message" where
  "message_of (r, txt, md, rd, now_ts, now_act) =
     \<lparr>role = r, content = txt, timestamp = now_ts, msg_metadata = or_empty md\<rparr>"

fun append_all :: "manager \<Rightarrow> string \<Rightarrow> append_call list \<Rightarrow> bool list \<times> manager" where
  "append_all s cs [] = ([], s)"
| "append_all s cs ((r, txt, md, rd, now_ts, now_act) # calls) =
     (case add_message s cs r txt md rd now_ts now_act of (ok, s1) \<Rightarrow>
        (case append_all s1 cs calls of (oks, s2) \<Rightarrow> (ok # oks, s2)))"






definition ex_roles :: manager where
  "ex_roles = snd (append_all (init_manager 1000 3600 0) ''CA1''
     [(''user'', ''Hello'', None, (1, 1000000, 1000000), 1000001, 1000002),
      (''assistant'', ''Hi!'', None, (2, 2000000, 2000000), 2000001, 2000002),
      (''system'', ''note'', None, (3, 3000000, 3000000), 3000001, 3000002)])"

definition ex_roles_conv :: conversation where
  "ex_roles_conv =
     \<lparr>call_sid = ''CA1'', from_number = ''unknown'', to_number = ''unknown'', start_time = 1000000,
      messages = [\<lparr>role = ''user'', content = ''Hello'', timestamp = 1000001, msg_metadata = []\<rparr>,
                  \<lparr>role = ''assistant'', content = ''Hi!'', timestamp = 2000001, msg_metadata = []\<rparr>,
                  \<lparr>role = ''system'', content = ''note'', timestamp = 3000001, msg_metadata = []\<rparr>],
      is_active = True,
      metadata = [(''last_activity'', PIso 3000002), (''message_count'', PInt 3)], obj_id = 0\<rparr>"

definition ex_msg :: "string \<Rightarrow> string \<Rightarrow> message" where
  "ex_msg r tx = \<lparr>role = r, content = tx, timestamp = 0, msg_metadata = []\<rparr>"

definition ex_clock :: "nat \<Rightarrow> stats_reads" where
  "ex_clock i = ((1, 5000000, 5000000), 6000000)"

text \<open>
  An interpreter for the examples: ASCII texts, a table without emptied slots, \<open>u\<close>
  unused slots, and CPython's resize.
\<close>

definition ex_py :: "nat \<Rightarrow> interp" where
  "ex_py u = \<lparr>str_lower = ascii_lower, gaps = (\<lambda>i. 0), free_slots = u, regrow = cpython_regrow\<rparr>"

definition ex_five :: manager where
  "ex_five =
     \<lparr>conversations =
        [(''CA1'', ex_conv ''CA1'' 1000000 True [ex_msg ''user'' ''Hi'', ex_msg ''user'' ''Hello there''] 0),
         (''CA2'', ex_conv ''CA2'' 2000000 True [ex_msg ''user'' ''well, hello''] 1),
         (''CA3'', ex_conv ''CA3'' 3000000 True [ex_msg ''assistant'' ''HELLO''] 2),
         (''CA4'', ex_conv ''CA4'' 4000000 True [ex_msg ''user'' ''oh hello!''] 3),
         (''CA5'', ex_conv ''CA5'' 5000000 True [ex_msg ''user'' ''hello''] 4)],
      max_conversations = 1000, cleanup_interval = 3600, last_cleanup = 0, next_obj = 5\<rparr>"

definition ex_hit :: summary where
  "ex_hit = \<lparr>s_call_sid = ''CA1'', s_from_number = ''unknown'', s_to_number = ''unknown'',
      s_start_time = PIso 1000000, s_is_active = True, total_messages = 2, user_messages = 2,
      assistant_messages = 0, duration_seconds = 5, s_metadata = [],
      matching_message = Some ''Hello there''\<rparr>"

text \<open>
  Stores whose first conversation has ended more than 24 hours before the clock readings
  of \<open>ex_clock_due\<close>, at which the eviction pass is due.
\<close>

definition ex_five_old :: manager where
  "ex_five_old =
     \<lparr>conversations =
        [(''CA1'', ex_conv ''CA1'' 1000000 False [ex_msg ''user'' ''Hello there''] 0),
         (''CA2'', ex_conv ''CA2'' 352000000000 True [ex_msg ''user'' ''well, hello''] 1),
         (''CA3'', ex_conv ''CA3'' 353000000000 True [ex_msg ''assistant'' ''HELLO''] 2),
         (''CA4'', ex_conv ''CA4'' 354000000000 True [ex_msg ''user'' ''oh hello!''] 3),
         (''CA5'', ex_conv ''CA5'' 355000000000 True [ex_msg ''user'' ''hello''] 4)],
      max_conversations = 1000, cleanup_interval = 3600, last_cleanup = 0, next_obj = 5\<rparr>"

definition ex_two_old :: manager where
  "ex_two_old =
     \<lparr>conversations =
        [(''CA1'', ex_conv ''CA1'' 1000000 False [ex_msg ''user'' ''Hello there''] 0),
         (''CA2'', ex_conv ''CA2'' 352000000000 True [ex_msg ''user'' ''well, hello''] 1)],
      max_conversations = 1000, cleanup_interval = 3600, last_cleanup = 0, next_obj = 2\<rparr>"

definition ex_clock_due :: "nat \<Rightarrow> stats_reads" where
  "ex_clock_due i = ((4000, 360000000000, 360000000000), 360000000001)"

section \<open>Sequences of store operations\<close>

text \<open>
  The public operations of the manager, each with its arguments and the clock readings
  taken during the call, and the eviction pass on its own. \<open>exec\<close> is the effect of one
  operation on the manager, \<open>run\<close> the effect of a sequence.
\<close>

datatype op =
    GetOrCreate string "string option" "string option" gc_reads
  | AppendMessage string string string "pydict option" gc_reads datetime datetime
  | GetHistory string int gc_reads
  | EndConversation string datetime datetime
  | Stats string stats_reads
  | Search interp string int "nat \<Rightarrow> stats_reads"
  | Export string gc_reads
  | EvictionPass real datetime

fun exec :: "manager \<Rightarrow> op \<Rightarrow> manager" where
  "exec s (GetOrCreate cs fromn ton rd) = snd (get_conversation s cs fromn ton rd)"
| "exec s (AppendMessage cs r body md rd now_ts now_act) = snd (add_message s cs r body md rd now_ts now_act)"
| "exec s (GetHistory cs limit rd) = snd (get_history s cs limit rd)"
| "exec s (EndConversation cs now_end now_dur) = snd (end_conversation s cs now_end now_dur)"
| "exec s (Stats cs rd) = snd (get_conversation_stats s cs rd)"
| "exec s (Search py query limit clk) = snd (search_conversations py s query limit clk)"
| "exec s (Export cs rd) = snd (export_conversation s cs rd)"
| "exec s (EvictionPass t now) = cleanup_old_conversations s t now"

definition run :: "manager \<Rightarrow> op list \<Rightarrow> manager" where
  "run s ops = foldl exec s ops"

text \<open>
  The stores reachable from an empty manager: distinct keys, distinct object identities
  below the allocation counter, and every conversation filed under its own call_sid.
\<close>

definition store_ok :: "manager \<Rightarrow> bool" where
  "store_ok s \<longleftrightarrow>
     distinct (map fst (conversations s))
     \<and> distinct (map (\<lambda>e. obj_id (snd e)) (conversations s))
     \<and> (\<forall>e \<in> set (conversations s). obj_id (snd e) < next_obj s \<and> call_sid (snd e) = fst e)"

text \<open>
  From \<open>s\<close> to \<open>s'\<close> no object goes from inactive to active: every object of \<open>s'\<close>
  that already existed in \<open>s\<close> is stored there under the same key, and is inactive
  in \<open>s'\<close> if it is inactive in \<open>s\<close>.
\<close>

definition no_revival :: "manager \<Rightarrow> manager \<Rightarrow> bool" where
  "no_revival s s' \<longleftrightarrow>
     next_obj s \<le> next_obj s'
     \<and> (\<forall>e' \<in> set (conversations s'). obj_id (snd e') < next_obj s \<longrightarrow>
            (\<exists>e \<in> set (conversations s). fst e = fst e' \<and> obj_id (snd e) = obj_id (snd e')
                 \<and> (is_active (snd e') \<longrightarrow> is_active (snd e))))"

definition step_ok :: "manager \<Rightarrow> manager \<Rightarrow> bool" where
  "step_ok s s' \<longleftrightarrow> (store_ok s \<longrightarrow> store_ok s' \<and> no_revival s s')"

definition ex_ops1 :: "op list" where
  "ex_ops1 = [GetOrCreate ''CA1'' (Some ''+15550100'') None (1, 1000000, 1000000),
              EndConversation ''CA1'' 4000000 4000000]"

definition ex_ops2 :: "op list" where
  "ex_ops2 = [AppendMessage ''CA1'' ''user'' ''Hello'' None (2, 5000000, 5000000) 5000001 5000002,
              Stats ''CA1'' ((3, 6000000, 6000000), 6000001),
              Search (ex_py 0) ''hello'' 5 ex_clock,
              GetHistory ''CA1'' 0 (4, 6500000, 6500000),
              Export ''CA1'' (5, 6600000, 6600000),
              EvictionPass 4000 7000000,
              GetOrCreate ''CA1'' None None (4001, 8000000, 8000000)]"

definition ex_ended :: conversation where
  "ex_ended = \<lparr>call_sid = ''CA1'', from_number = ''+15550100'', to_number = ''unknown'',
      start_time = 1000000, messages = [], is_active = False,
      metadata = [(''end_time'', PIso 4000000), (''duration'', PFloat 3)], obj_id = 0\<rparr>"

definition ex_ops3 :: "op list" where
  "ex_ops3 = [GetOrCreate ''CA1'' (Some ''+15550100'') None (1, 1000000, 1000000),
              EndConversation ''CA1'' 4000000 4000000,
              GetOrCreate ''CA2'' None None (2, 5000000, 5000000)]"

definition ex_second :: conversation where
  "ex_second = \<lparr>call_sid = ''CA2'', from_number = ''unknown'', to_number = ''unknown'',
      start_time = 5000000, messages = [], is_active = True, metadata = [], obj_id = 1\<rparr>"

section \<open>Dictionary deletion and the eviction loop\<close>

lemma delete_filter: "AList.delete k convs = filter (\<lambda>e. fst e \<noteq> k) convs"
  by (induction convs) auto

lemma dom_delete: "fst ` set (AList.delete k al) = fst ` set al - {k}"
proof -
  have "fst ` set (AList.delete k al) = set (map fst (AList.delete k al))" by simp
  also have "\<dots> = set (removeAll k (map fst al))" by (simp only: delete_keys)
  also have "\<dots> = fst ` set al - {k}" by simp
  finally show ?thesis .
qed

lemma fold_delete_filter:
  "fold AList.delete ks convs = filter (\<lambda>e. fst e \<notin> set ks) convs"
proof (induction ks arbitrary: convs)
  case Nil
  show ?case by simp
next
  case (Cons k ks)
  have "AList.delete k convs = filter (\<lambda>e. fst e \<noteq> k) convs"
    by (rule delete_filter)
  then show ?case using Cons by (auto intro: filter_cong)
qed

lemma length_delete_distinct:
  "distinct (map fst convs) \<Longrightarrow> k \<in> fst ` set convs \<Longrightarrow> length (AList.delete k convs) = length convs - 1"
proof (induction convs)
  case Nil
  then show ?case by simp
next
  case (Cons e convs)
  show ?case
  proof (cases "fst e = k")
    case True
    with Cons.prems have "k \<notin> fst ` set convs" by auto
    then have "AList.delete k convs = convs"
      by (simp add: delete_filter filter_id_conv) force
    with True show ?thesis by (cases e) (simp)
  next
    case False
    with Cons.prems have kin: "k \<in> fst ` set convs" by auto
    with Cons have "length (AList.delete k convs) = length convs - 1" by simp
    moreover from kin have "length convs > 0" by (cases convs) auto
    ultimately show ?thesis using False by (cases e) (auto)
  qed
qed

lemma evict_loop_filter:
  assumes "distinct (map fst rest)" "fst ` set rest \<subseteq> fst ` set convs" "distinct (map fst convs)"
  shows "evict_loop maxc inact rest convs =
         filter (\<lambda>e. fst e \<notin> set (take (nat (int (length convs) - maxc))
                                       (filter (\<lambda>k. k \<in> set inact) (map fst rest)))) convs"
  using assms
proof (induction rest arbitrary: convs)
  case Nil
  show ?case by simp
next
  case (Cons e rest)
  obtain k c where e: "e = (k, c)" by (cases e)
  from Cons.prems e have drest: "distinct (map fst rest)" and knot: "k \<notin> fst ` set rest"
    and kin: "k \<in> fst ` set convs" and sub: "fst ` set rest \<subseteq> fst ` set convs"
    by auto
  show ?case
  proof (cases "k \<in> set inact \<and> int (length convs) > maxc")
    case True
    let ?convs' = "AList.delete k convs"
    have len: "length ?convs' = length convs - 1"
      using length_delete_distinct[OF Cons.prems(3) kin] .
    have sub': "fst ` set rest \<subseteq> fst ` set ?convs'"
      using sub knot by (auto simp: dom_delete)
    have d': "distinct (map fst ?convs')"
      using Cons.prems(3) by (simp add: distinct_delete)
    have IH: "evict_loop maxc inact rest ?convs' =
         filter (\<lambda>e. fst e \<notin> set (take (nat (int (length ?convs') - maxc))
                                       (filter (\<lambda>k. k \<in> set inact) (map fst rest)))) ?convs'"
      using Cons.IH[OF drest sub' d'] .
    from kin have ne: "0 < length convs" by (cases convs) auto
    from True have pos: "nat (int (length convs) - maxc) = Suc (nat (int (length ?convs') - maxc))"
      using len ne by linarith
    show ?thesis
    proof -
      have "evict_loop maxc inact (e # rest) convs = evict_loop maxc inact rest ?convs'"
        using True e by simp
      also have "\<dots> = filter (\<lambda>x. fst x \<notin> set (take (nat (int (length ?convs') - maxc))
                                       (filter (\<lambda>k. k \<in> set inact) (map fst rest))))
                         (filter (\<lambda>x. fst x \<noteq> k) convs)"
        using IH by (simp only: delete_filter)
      also have "\<dots> = filter (\<lambda>x. fst x \<notin> set (take (nat (int (length convs) - maxc))
                                       (filter (\<lambda>k. k \<in> set inact) (map fst (e # rest))))) convs"
        unfolding pos using True e by simp
      finally show ?thesis .
    qed
  next
    case False
    have IH: "evict_loop maxc inact rest convs =
         filter (\<lambda>e. fst e \<notin> set (take (nat (int (length convs) - maxc))
                                       (filter (\<lambda>k. k \<in> set inact) (map fst rest)))) convs"
      using Cons.IH[OF drest sub Cons.prems(3)] .
    show ?thesis
    proof (cases "k \<in> set inact")
      case True
      with False have "nat (int (length convs) - maxc) = 0" by auto
      with False e IH show ?thesis by simp
    next
      case False
      with e IH show ?thesis by simp
    qed
  qed
qed

lemma length_filter_notin:
  assumes "distinct (map fst convs)" "distinct R" "set R \<subseteq> fst ` set convs"
  shows "length (filter (\<lambda>e. fst e \<notin> set R) convs) = length convs - length R"
proof -
  let ?In = "filter (\<lambda>e. fst e \<in> set R) convs"
  have m: "map fst ?In = filter (\<lambda>k. k \<in> set R) (map fst convs)"
    by (simp add: filter_map comp_def)
  have d: "distinct (map fst ?In)" unfolding m using assms(1) by simp
  have s: "set (map fst ?In) = set R" unfolding m using assms(3) by auto
  have "length ?In = length (map fst ?In)" by simp
  also have "\<dots> = card (set (map fst ?In))" using d by (simp only: distinct_card)
  also have "\<dots> = length R" unfolding s using assms(2) by (simp only: distinct_card)
  finally have inlen: "length ?In = length R" .
  have "length ?In + length (filter (\<lambda>e. \<not> fst e \<in> set R) convs) = length convs"
    by (rule sum_length_filter_compl)
  with inlen show ?thesis by simp
qed

lemma old_conversations_iff:
  assumes "distinct (map fst convs)" "(k, c) \<in> set convs"
  shows "k \<in> set (old_conversations now convs)
          \<longleftrightarrow> start_time c < now - timedelta_hours 24 \<and> \<not> is_active c"
proof
  assume "k \<in> set (old_conversations now convs)"
  then obtain c' where c': "(k, c') \<in> set convs"
      "start_time c' < now - timedelta_hours 24 \<and> \<not> is_active c'"
    by (auto simp: old_conversations_def)
  from assms c'(1) have "c' = c" by (meson eq_key_imp_eq_value)
  with c'(2) show "start_time c < now - timedelta_hours 24 \<and> \<not> is_active c" by simp
next
  assume "start_time c < now - timedelta_hours 24 \<and> \<not> is_active c"
  with assms(2) show "k \<in> set (old_conversations now convs)"
    by (force simp: old_conversations_def)
qed

lemma cleanup_age_filter:
  "cleanup_age now convs = filter (\<lambda>e. fst e \<notin> set (old_conversations now convs)) convs"
  by (simp add: cleanup_age_def fold_delete_filter)

lemma cleanup_age_mem:
  assumes "distinct (map fst convs)"
  shows "(k, c) \<in> set (cleanup_age now convs)
          \<longleftrightarrow> (k, c) \<in> set convs \<and> (is_active c \<or> \<not> start_time c < now - timedelta_hours 24)"
  using old_conversations_iff[OF assms] by (auto simp: cleanup_age_filter)

lemma cleanup_age_distinct:
  "distinct (map fst convs) \<Longrightarrow> distinct (map fst (cleanup_age now convs))"
  by (simp add: cleanup_age_filter distinct_map_filter)

lemma cleanup_capacity_filter:
  assumes "distinct (map fst convs)"
  shows "cleanup_capacity maxc convs = filter (\<lambda>e. fst e \<notin> set (evicted maxc convs)) convs"
proof (cases "int (length convs) > maxc")
  case False
  then have "nat (int (length convs) - maxc) = 0" by simp
  then show ?thesis using False by (simp add: cleanup_capacity_def evicted_def)
next
  case True
  let ?srt = "sort_key (\<lambda>x. start_time (snd x)) convs"
  let ?inact = "map fst (filter (\<lambda>(k, v). \<not> is_active v) convs)"
  have ds: "distinct (map fst ?srt)"
    using assms by (simp add: distinct_map)
  have sub: "fst ` set ?srt \<subseteq> fst ` set convs" by simp
  have key: "\<And>e. e \<in> set ?srt \<Longrightarrow> (fst e \<in> set ?inact) = (\<not> is_active (snd e))"
  proof -
    fix e assume "e \<in> set ?srt"
    then have ein: "(fst e, snd e) \<in> set convs" by simp
    show "(fst e \<in> set ?inact) = (\<not> is_active (snd e))"
    proof
      assume "fst e \<in> set ?inact"
      then obtain v where "(fst e, v) \<in> set convs" "\<not> is_active v" by auto
      with assms ein show "\<not> is_active (snd e)" by (metis eq_key_imp_eq_value)
    next
      assume "\<not> is_active (snd e)"
      with ein show "fst e \<in> set ?inact" by force
    qed
  qed
  have "filter (\<lambda>k. k \<in> set ?inact) (map fst ?srt)
          = map fst (filter (\<lambda>e. fst e \<in> set ?inact) ?srt)"
    by (simp add: filter_map comp_def)
  also have "\<dots> = map fst (filter (\<lambda>e. \<not> is_active (snd e)) ?srt)"
    using key by (metis (mono_tags, lifting) filter_cong)
  finally have f: "filter (\<lambda>k. k \<in> set ?inact) (map fst ?srt)
          = map fst (filter (\<lambda>e. \<not> is_active (snd e)) ?srt)" .
  have "cleanup_capacity maxc convs = evict_loop maxc ?inact ?srt convs"
    using True by (simp add: cleanup_capacity_def)
  also have "\<dots> = filter (\<lambda>e. fst e \<notin> set (take (nat (int (length convs) - maxc))
                                       (filter (\<lambda>k. k \<in> set ?inact) (map fst ?srt)))) convs"
    by (rule evict_loop_filter[OF ds sub assms])
  finally show ?thesis unfolding f by (simp add: evicted_def take_map)
qed

lemma evicted_inactive:
  assumes "distinct (map fst convs)" "k \<in> set (evicted maxc convs)" "(k, c) \<in> set convs"
  shows "\<not> is_active c"
proof -
  from assms(2) obtain e where e: "e \<in> set (filter (\<lambda>e. \<not> is_active (snd e))
        (sort_key (\<lambda>x. start_time (snd x)) convs))" "fst e = k"
    by (auto simp: evicted_def dest: in_set_takeD)
  then have "(k, snd e) \<in> set convs" "\<not> is_active (snd e)" by auto
  with assms(1,3) show ?thesis by (metis eq_key_imp_eq_value)
qed

lemma evicted_keys: "set (evicted maxc convs) \<subseteq> fst ` set convs"
proof -
  let ?L = "filter (\<lambda>e. \<not> is_active (snd e)) (sort_key (\<lambda>x. start_time (snd x)) convs)"
  have "set (take (nat (int (length convs) - maxc)) ?L) \<subseteq> set ?L" by (rule set_take_subset)
  also have "\<dots> \<subseteq> set convs" by auto
  finally have "fst ` set (take (nat (int (length convs) - maxc)) ?L) \<subseteq> fst ` set convs"
    by (rule image_mono)
  then show ?thesis by (simp add: evicted_def)
qed

lemma evicted_distinct:
  assumes "distinct (map fst convs)"
  shows "distinct (evicted maxc convs)"
proof -
  have "distinct (map fst (sort_key (\<lambda>x. start_time (snd x)) convs))"
    using assms by (simp add: distinct_map)
  then have "distinct (map fst (filter (\<lambda>e. \<not> is_active (snd e))
                 (sort_key (\<lambda>x. start_time (snd x)) convs)))"
    by (rule distinct_map_filter)
  then show ?thesis unfolding evicted_def take_map[symmetric] by (rule distinct_take)
qed

lemma evicted_length:
  "length (evicted maxc convs)
     = min (nat (int (length convs) - maxc)) (length (filter (\<lambda>e. \<not> is_active (snd e)) convs))"
proof -
  have "length (filter (\<lambda>e. \<not> is_active (snd e)) (sort_key (\<lambda>x. start_time (snd x)) convs))
        = length (filter (\<lambda>e. \<not> is_active (snd e)) convs)"
    by (simp add: filter_sort)
  then show ?thesis by (simp add: evicted_def min.commute)
qed

lemma cleanup_capacity_length:
  assumes "distinct (map fst convs)"
  shows "length (cleanup_capacity maxc convs)
           = length convs - min (nat (int (length convs) - maxc))
                                (length (filter (\<lambda>e. \<not> is_active (snd e)) convs))"
  unfolding cleanup_capacity_filter[OF assms]
  using length_filter_notin[OF assms evicted_distinct[OF assms] evicted_keys]
  by (simp only: evicted_length)

lemma cleanup_capacity_active:
  assumes "distinct (map fst convs)" "(k, c) \<in> set convs" "is_active c"
  shows "(k, c) \<in> set (cleanup_capacity maxc convs)"
  using assms evicted_inactive[OF assms(1) _ assms(2)]
  by (auto simp: cleanup_capacity_filter)

lemma cleanup_capacity_subset:
  assumes "distinct (map fst convs)"
  shows "set (cleanup_capacity maxc convs) \<subseteq> set convs"
  by (auto simp: cleanup_capacity_filter[OF assms])

lemma cleanup_capacity_distinct:
  assumes "distinct (map fst convs)"
  shows "distinct (map fst (cleanup_capacity maxc convs))"
  using assms by (simp add: cleanup_capacity_filter distinct_map_filter)

lemma cleanup_capacity_inactive_left:
  assumes "distinct (map fst convs)" "(k, c) \<in> set (cleanup_capacity maxc convs)" "\<not> is_active c"
  shows "int (length (cleanup_capacity maxc convs)) \<le> maxc"
proof (rule ccontr)
  assume "\<not> int (length (cleanup_capacity maxc convs)) \<le> maxc"
  then have big: "int (length (cleanup_capacity maxc convs)) > maxc" by simp
  let ?I = "filter (\<lambda>e. \<not> is_active (snd e)) convs"
  let ?d = "nat (int (length convs) - maxc)"
  have len: "length (cleanup_capacity maxc convs) = length convs - min ?d (length ?I)"
    by (rule cleanup_capacity_length[OF assms(1)])
  have le: "length ?I \<le> length convs" by simp
  have "length ?I \<le> ?d"
  proof (rule ccontr)
    assume "\<not> length ?I \<le> ?d"
    then have lt: "?d < length ?I" by simp
    then have "min ?d (length ?I) = ?d" by simp
    with len have "length (cleanup_capacity maxc convs) = length convs - ?d" by simp
    with lt le have "int (length (cleanup_capacity maxc convs)) \<le> maxc" by linarith
    with big show False by simp
  qed
  then have all: "min ?d (length ?I) = length ?I" by simp
  have "length (evicted maxc convs) = length ?I" using all by (simp add: evicted_length)
  moreover have "evicted maxc convs = map fst (take ?d (filter (\<lambda>e. \<not> is_active (snd e))
                 (sort_key (\<lambda>x. start_time (snd x)) convs)))" by (simp add: evicted_def)
  moreover have "length (filter (\<lambda>e. \<not> is_active (snd e)) (sort_key (\<lambda>x. start_time (snd x)) convs))
        = length ?I" by (simp add: filter_sort)
  ultimately have ev: "evicted maxc convs = map fst (filter (\<lambda>e. \<not> is_active (snd e))
                 (sort_key (\<lambda>x. start_time (snd x)) convs))"
    using all by (simp add: min_def split: if_splits)
  from assms(2) have kc: "(k, c) \<in> set convs" "k \<notin> set (evicted maxc convs)"
    by (auto simp: cleanup_capacity_filter[OF assms(1)])
  from kc(1) assms(3) have "k \<in> set (evicted maxc convs)" unfolding ev by force
  with kc(2) show False by simp
qed

lemma cleanup_capacity_floor:
  assumes "distinct (map fst convs)" "cleanup_capacity maxc convs \<noteq> convs"
  shows "int (length (cleanup_capacity maxc convs)) \<ge> maxc"
proof -
  let ?I = "filter (\<lambda>e. \<not> is_active (snd e)) convs"
  let ?d = "nat (int (length convs) - maxc)"
  have len: "length (cleanup_capacity maxc convs) = length convs - min ?d (length ?I)"
    by (rule cleanup_capacity_length[OF assms(1)])
  from assms(2) have "int (length convs) > maxc"
    by (cases "int (length convs) > maxc") (simp_all add: cleanup_capacity_def)
  then show ?thesis using len by linarith
qed

lemma cleanup_capacity_order:
  assumes d: "distinct (map fst convs)"
    and rem: "(k, c) \<in> set convs" "(k, c) \<notin> set (cleanup_capacity maxc convs)"
    and kept: "(k', c') \<in> set (cleanup_capacity maxc convs)" "\<not> is_active c'"
  shows "start_time c \<le> start_time c'"
proof -
  let ?L = "filter (\<lambda>e. \<not> is_active (snd e)) (sort_key (\<lambda>x. start_time (snd x)) convs)"
  let ?n = "nat (int (length convs) - maxc)"
  have srt: "sorted (map (\<lambda>x. start_time (snd x)) ?L)"
    by (simp add: sorted_filter)
  have ev: "evicted maxc convs = map fst (take ?n ?L)" by (simp add: evicted_def)
  from rem have "k \<in> set (evicted maxc convs)"
    by (auto simp: cleanup_capacity_filter[OF d])
  then obtain e where e: "e \<in> set (take ?n ?L)" "fst e = k" unfolding ev by auto
  then have "(k, snd e) \<in> set convs" by (auto dest: in_set_takeD)
  with d rem(1) have "snd e = c" by (metis eq_key_imp_eq_value)
  with e have kc: "(k, c) \<in> set (take ?n ?L)" by (metis prod.collapse)
  from kept have k': "(k', c') \<in> set convs" "k' \<notin> set (evicted maxc convs)"
    by (auto simp: cleanup_capacity_filter[OF d])
  from k'(1) kept(2) have inL: "(k', c') \<in> set ?L" by simp
  have "(k', c') \<notin> set (take ?n ?L)" using k'(2) unfolding ev by force
  with inL have k'c': "(k', c') \<in> set (drop ?n ?L)"
    by (metis Un_iff append_take_drop_id set_append)
  have "sorted (map (\<lambda>x. start_time (snd x)) (take ?n ?L @ drop ?n ?L))" using srt by simp
  then have "\<forall>x\<in>set (take ?n ?L). \<forall>y\<in>set (drop ?n ?L). start_time (snd x) \<le> start_time (snd y)"
    unfolding map_append sorted_append by auto
  with kc k'c' show ?thesis by force
qed

lemma cleanup_conversations:
  "conversations (cleanup_old_conversations s t now) =
     (if t - last_cleanup s < real_of_int (cleanup_interval s) then conversations s
      else cleanup_capacity (max_conversations s) (cleanup_age now (conversations s)))"
  by (simp add: cleanup_old_conversations_def)

lemma cleanup_distinct:
  assumes "distinct (map fst (conversations s))"
  shows "distinct (map fst (conversations (cleanup_old_conversations s t now)))"
  using assms cleanup_capacity_distinct[OF cleanup_age_distinct[OF assms]]
  by (simp add: cleanup_conversations)

lemma cleanup_subset:
  assumes "distinct (map fst (conversations s))"
  shows "set (conversations (cleanup_old_conversations s t now)) \<subseteq> set (conversations s)"
proof -
  have "set (cleanup_capacity (max_conversations s) (cleanup_age now (conversations s)))
          \<subseteq> set (cleanup_age now (conversations s))"
    by (rule cleanup_capacity_subset[OF cleanup_age_distinct[OF assms]])
  also have "\<dots> \<subseteq> set (conversations s)" by (auto simp: cleanup_age_filter)
  finally show ?thesis by (simp add: cleanup_conversations)
qed

lemma cleanup_active:
  assumes "distinct (map fst (conversations s))" "(k, c) \<in> set (conversations s)" "is_active c"
  shows "(k, c) \<in> set (conversations (cleanup_old_conversations s t now))"
proof -
  have "(k, c) \<in> set (cleanup_age now (conversations s))"
    using assms by (simp add: cleanup_age_mem)
  then have "(k, c) \<in> set (cleanup_capacity (max_conversations s) (cleanup_age now (conversations s)))"
    using assms(3) by (rule cleanup_capacity_active[OF cleanup_age_distinct[OF assms(1)]])
  then show ?thesis using assms(2) by (simp add: cleanup_conversations)
qed

section \<open>Lookup and creation\<close>

lemma update_append:
  "k \<notin> fst ` set al \<Longrightarrow> AList.update k v al = al @ [(k, v)]"
  by (induction al) auto

lemma map_of_None_keys: "map_of al k = None \<longleftrightarrow> k \<notin> fst ` set al"
  by (simp add: map_of_eq_None_iff)

lemma cleanup_map_of_active:
  assumes "distinct (map fst (conversations s))" "map_of (conversations s) cs = Some c" "is_active c"
  shows "map_of (conversations (cleanup_old_conversations s t now)) cs = Some c"
proof -
  from assms(1,2) have "(cs, c) \<in> set (conversations s)" by simp
  then have "(cs, c) \<in> set (conversations (cleanup_old_conversations s t now))"
    using assms(3) by (rule cleanup_active[OF assms(1)])
  then show ?thesis using cleanup_distinct[OF assms(1)] by simp
qed

lemma cleanup_throttled:
  "t - last_cleanup s < real_of_int (cleanup_interval s) \<Longrightarrow> cleanup_old_conversations s t now = s"
  by (simp add: cleanup_old_conversations_def)

lemma get_conversation_found:
  assumes "map_of (conversations (cleanup_old_conversations s t nc)) cs = Some c"
  shows "get_conversation s cs f g (t, nc, nn) = (c, cleanup_old_conversations s t nc)"
  using assms by (simp add: get_conversation_def)

lemma get_conversation_created:
  assumes "map_of (conversations (cleanup_old_conversations s t nc)) cs = None"
  shows "get_conversation s cs f g (t, nc, nn) =
           (new_conversation cs f g nn (next_obj (cleanup_old_conversations s t nc)),
            (cleanup_old_conversations s t nc)
              \<lparr>conversations := conversations (cleanup_old_conversations s t nc)
                   @ [(cs, new_conversation cs f g nn (next_obj (cleanup_old_conversations s t nc)))],
               next_obj := Suc (next_obj (cleanup_old_conversations s t nc))\<rparr>)"
proof -
  from assms have "cs \<notin> fst ` set (conversations (cleanup_old_conversations s t nc))"
    by (simp add: map_of_None_keys)
  then have "AList.update cs (new_conversation cs f g nn (next_obj (cleanup_old_conversations s t nc)))
               (conversations (cleanup_old_conversations s t nc))
             = conversations (cleanup_old_conversations s t nc)
                 @ [(cs, new_conversation cs f g nn (next_obj (cleanup_old_conversations s t nc)))]"
    by (rule update_append)
  with assms show ?thesis by (simp add: get_conversation_def Let_def)
qed

lemma get_conversation_stored:
  "map_of (conversations (snd (get_conversation s cs f g rd))) cs = Some (fst (get_conversation s cs f g rd))"
  by (cases rd) (auto simp: get_conversation_def Let_def update_conv' split: option.splits)

lemma cleanup_next_obj: "next_obj (cleanup_old_conversations s t now) = next_obj s"
  by (simp add: cleanup_old_conversations_def)

lemma ex_one_eval:
  "ex_one = \<lparr>conversations = [(''CA1'', ex_conv ''CA1'' 1000000 True [] 0)], max_conversations = 1000,
             cleanup_interval = 3600, last_cleanup = 0, next_obj = 1\<rparr>"
  by (simp add: ex_one_def init_manager_def get_conversation_def
        cleanup_old_conversations_def new_conversation_def or_unknown_def ex_conv_def Let_def)

section \<open>Appending and reading under an active conversation\<close>


lemma cleanup_absent:
  assumes "distinct (map fst (conversations s))" "map_of (conversations s) cs = None"
  shows "map_of (conversations (cleanup_old_conversations s t now)) cs = None"
proof -
  from assms(2) have "cs \<notin> fst ` set (conversations s)" by (simp add: map_of_None_keys)
  with cleanup_subset[OF assms(1), of t now]
  have "cs \<notin> fst ` set (conversations (cleanup_old_conversations s t now))" by auto
  then show ?thesis by (simp add: map_of_None_keys)
qed


lemma add_message_unfold:
  "add_message s cs r txt md rd now_ts now_act =
     (True, (snd (get_conversation s cs None None rd))
        \<lparr>conversations := AList.update cs
            ((fst (get_conversation s cs None None rd))
               \<lparr>messages := messages (fst (get_conversation s cs None None rd))
                               @ [message_of (r, txt, md, rd, now_ts, now_act)],
                metadata := AList.update ''message_count''
                    (PInt (int (length (messages (fst (get_conversation s cs None None rd))
                               @ [message_of (r, txt, md, rd, now_ts, now_act)]))))
                    (AList.update ''last_activity'' (PIso now_act)
                       (metadata (fst (get_conversation s cs None None rd))))\<rparr>)
            (conversations (snd (get_conversation s cs None None rd)))\<rparr>)"
  by (simp add: add_message_def Let_def case_prod_unfold)




lemma get_conversation_stats_unfold:
  "get_conversation_stats s cs (gc, now_dur) =
     (\<lparr>s_call_sid = cs, s_from_number = from_number (fst (get_conversation s cs None None gc)),
       s_to_number = to_number (fst (get_conversation s cs None None gc)),
       s_start_time = PIso (start_time (fst (get_conversation s cs None None gc))),
       s_is_active = is_active (fst (get_conversation s cs None None gc)),
       total_messages = length (messages (fst (get_conversation s cs None None gc))),
       user_messages = length (filter (\<lambda>m. role m = ''user'') (messages (fst (get_conversation s cs None None gc)))),
       assistant_messages = length (filter (\<lambda>m. role m = ''assistant'') (messages (fst (get_conversation s cs None None gc)))),
       duration_seconds = total_seconds (now_dur - start_time (fst (get_conversation s cs None None gc))),
       s_metadata = metadata (fst (get_conversation s cs None None gc)), matching_message = None\<rparr>,
      snd (get_conversation s cs None None gc))"
  by (simp add: get_conversation_stats_def Let_def case_prod_unfold)

lemma role_count_strict:
  assumes "m \<in> set ms" "role m \<noteq> ''user''" "role m \<noteq> ''assistant''"
  shows "length (filter (\<lambda>m. role m = ''user'') ms) + length (filter (\<lambda>m. role m = ''assistant'') ms)
           < length ms"
  using assms
proof (induction ms)
  case Nil
  then show ?case by simp
next
  case (Cons x ms)
  have le: "length (filter (\<lambda>m. role m = ''user'') ms) + length (filter (\<lambda>m. role m = ''assistant'') ms)
           \<le> length ms"
    by (induction ms) auto
  show ?case
  proof (cases "m = x")
    case True
    with Cons.prems le show ?thesis by simp
  next
    case False
    with Cons.prems have "m \<in> set ms" by simp
    from Cons.IH[OF this Cons.prems(2,3)] show ?thesis by auto
  qed
qed

lemma ex_roles_eval:
  "ex_roles = \<lparr>conversations = [(''CA1'', ex_roles_conv)], max_conversations = 1000,
               cleanup_interval = 3600, last_cleanup = 0, next_obj = 1\<rparr>"
  by (simp add: ex_roles_def ex_roles_conv_def init_manager_def add_message_def get_conversation_def
        cleanup_old_conversations_def new_conversation_def or_unknown_def or_empty_def Let_def)

section \<open>The search loop\<close>

lemma first_match_Some:
  "first_match lwr q ms = Some found \<Longrightarrow> \<exists>m \<in> set ms. content m = found \<and> contains (lwr (content m)) q"
  by (induction ms) (auto split: if_splits)

lemma stats_call_sid: "s_call_sid (fst (get_conversation_stats s cs sr)) = cs"
  by (cases sr) (simp add: get_conversation_stats_unfold)

lemma search_loop_size:
  "length (conversations s) \<noteq> di_used it \<Longrightarrow> search_loop py q limit clk len it s results = ([], s)"
  by (cases len) simp_all

lemma search_loop_end:
  assumes "length (conversations s) = di_used it" "dropWhile (\<lambda>sl. sl = None) (ahead it) = []"
  shows "search_loop py q limit clk (Suc len) it s results = (results, s)"
  using assms by (simp del: dropWhile_eq_Nil_conv)

lemma search_loop_nomatch:
  assumes "length (conversations s) = di_used it"
      and "dropWhile (\<lambda>sl. sl = None) (ahead it) = slot # rest"
      and "first_match (str_lower py) q (messages (snd (the slot))) = None"
  shows "search_loop py q limit clk (Suc len) it s results =
           (if int (length results) \<ge> limit then (results, s)
            else search_loop py q limit clk len (next_iter it rest) s results)"
  using assms by (simp add: Let_def)

lemma search_loop_match:
  assumes "length (conversations s) = di_used it"
      and "dropWhile (\<lambda>sl. sl = None) (ahead it) = slot # rest"
      and "first_match (str_lower py) q (messages (snd (the slot))) = Some found"
  shows "search_loop py q limit clk (Suc len) it s results =
           (if int (length (results @ [(fst (get_conversation_stats s (call_sid (snd (the slot)))
                                             (clk (length results))))\<lparr>matching_message := Some found\<rparr>])) \<ge> limit
            then (results @ [(fst (get_conversation_stats s (call_sid (snd (the slot)))
                                     (clk (length results))))\<lparr>matching_message := Some found\<rparr>],
                  snd (get_conversation_stats s (call_sid (snd (the slot))) (clk (length results))))
            else search_loop py q limit clk len
                   (iter_after_call py s (clk (length results))
                      (snd (get_conversation_stats s (call_sid (snd (the slot))) (clk (length results))))
                      (next_iter it rest))
                   (snd (get_conversation_stats s (call_sid (snd (the slot))) (clk (length results))))
                   (results @ [(fst (get_conversation_stats s (call_sid (snd (the slot)))
                                       (clk (length results))))\<lparr>matching_message := Some found\<rparr>]))"
  using assms by (simp add: Let_def case_prod_unfold)

lemma search_loop_length:
  assumes "int (length results) < limit"
  shows "int (length (fst (search_loop py q limit clk len it s results))) \<le> limit"
  using assms
proof (induction len arbitrary: it s results)
  case 0
  then show ?case by simp
next
  case (Suc len)
  show ?case
  proof (cases "length (conversations s) \<noteq> di_used it")
    case True
    show ?thesis unfolding search_loop_size[OF True] using Suc.prems by simp
  next
    case False
    then have same: "length (conversations s) = di_used it" by simp
    show ?thesis
    proof (cases "dropWhile (\<lambda>sl. sl = None) (ahead it)")
      case Nil
      show ?thesis unfolding search_loop_end[OF same Nil] using Suc.prems by simp
    next
      case (Cons slot rest)
      show ?thesis
      proof (cases "first_match (str_lower py) q (messages (snd (the slot)))")
        case None
        show ?thesis
          unfolding search_loop_nomatch[OF same Cons None]
          using Suc.prems Suc.IH[OF Suc.prems] by simp
      next
        case (Some found)
        let ?st = "get_conversation_stats s (call_sid (snd (the slot))) (clk (length results))"
        let ?results' = "results @ [(fst ?st)\<lparr>matching_message := Some found\<rparr>]"
        show ?thesis
        proof (cases "int (length ?results') \<ge> limit")
          case True
          then show ?thesis
            unfolding search_loop_match[OF same Cons Some] using Suc.prems by simp
        next
          case False
          then have lt: "int (length ?results') < limit" by simp
          from Suc.IH[OF lt] False show ?thesis
            unfolding search_loop_match[OF same Cons Some] by simp
        qed
      qed
    qed
  qed
qed

lemma search_bound_from_one:
  "1 \<le> limit \<Longrightarrow> int (length (fst (search_conversations py s query limit clk))) \<le> limit"
  unfolding search_conversations_def by (rule search_loop_length) simp

lemma ex_five_search_zero:
  "search_conversations (ex_py 0) ex_five ''HeLLo'' 0 ex_clock = ([ex_hit], ex_five)"
  by code_simp

lemma ex_five_search_one:
  "search_conversations (ex_py 0) ex_five ''HeLLo'' 1 ex_clock = ([ex_hit], ex_five)"
  by code_simp

text \<open>
  A conversation deleted by the eviction pass of the first \<open>get_conversation_stats\<close>
  call and built anew by that call: with a free slot in the table the iterator meets the
  new entry when its counter is used up, and the search returns the empty list; with no
  free slot the table is rebuilt, the iterator passes over the second conversation, and
  the search returns four results.
\<close>

lemma ex_two_old_search:
  "fst (search_conversations (ex_py 3) ex_two_old ''HeLLo'' 20 ex_clock_due) = []"
  by code_simp

lemma ex_five_old_search:
  "map s_call_sid (fst (search_conversations (ex_py 0) ex_five_old ''HeLLo'' 20 ex_clock_due))
     = [''CA1'', ''CA3'', ''CA4'', ''CA5'']"
  by code_simp

section \<open>Every operation preserves the store invariant and revives no conversation\<close>

lemma step_ok_refl: "step_ok s s"
  by (auto simp: step_ok_def no_revival_def)

lemma step_ok_trans:
  assumes "step_ok s s1" "step_ok s1 s2"
  shows "step_ok s s2"
proof -
  { assume ok: "store_ok s"
    with assms(1) have ok1: "store_ok s1" and nr1: "no_revival s s1" by (auto simp: step_ok_def)
    with assms(2) have ok2: "store_ok s2" and nr2: "no_revival s1 s2" by (auto simp: step_ok_def)
    have "no_revival s s2"
      unfolding no_revival_def
    proof (intro conjI ballI impI)
      show "next_obj s \<le> next_obj s2" using nr1 nr2 by (simp add: no_revival_def)
    next
      fix e2 assume e2: "e2 \<in> set (conversations s2)" "obj_id (snd e2) < next_obj s"
      from nr1 have "next_obj s \<le> next_obj s1" by (simp add: no_revival_def)
      with e2(2) have "obj_id (snd e2) < next_obj s1" by simp
      with nr2 e2(1) obtain e1 where e1: "e1 \<in> set (conversations s1)" "fst e1 = fst e2"
          "obj_id (snd e1) = obj_id (snd e2)" "is_active (snd e2) \<longrightarrow> is_active (snd e1)"
        unfolding no_revival_def by blast
      from e1(3) e2(2) have "obj_id (snd e1) < next_obj s" by simp
      with nr1 e1(1) obtain e where e: "e \<in> set (conversations s)" "fst e = fst e1"
          "obj_id (snd e) = obj_id (snd e1)" "is_active (snd e1) \<longrightarrow> is_active (snd e)"
        unfolding no_revival_def by blast
      with e1 show "\<exists>e \<in> set (conversations s). fst e = fst e2 \<and> obj_id (snd e) = obj_id (snd e2)
                 \<and> (is_active (snd e2) \<longrightarrow> is_active (snd e))" by auto
    qed
    with ok2 have "store_ok s2 \<and> no_revival s s2" by simp }
  then show ?thesis by (simp add: step_ok_def)
qed

lemma cleanup_is_filter:
  assumes "distinct (map fst (conversations s))"
  shows "\<exists>P. conversations (cleanup_old_conversations s t now) = filter P (conversations s)"
proof (cases "t - last_cleanup s < real_of_int (cleanup_interval s)")
  case True
  then have "conversations (cleanup_old_conversations s t now) = filter (\<lambda>e. True) (conversations s)"
    by (simp add: cleanup_conversations)
  then show ?thesis by blast
next
  case False
  let ?X = "cleanup_age now (conversations s)"
  have "conversations (cleanup_old_conversations s t now) = cleanup_capacity (max_conversations s) ?X"
    using False by (simp add: cleanup_conversations)
  also have "\<dots> = filter (\<lambda>e. fst e \<notin> set (evicted (max_conversations s) ?X)) ?X"
    by (rule cleanup_capacity_filter[OF cleanup_age_distinct[OF assms]])
  also have "\<dots> = filter (\<lambda>e. fst e \<notin> set (old_conversations now (conversations s))
                           \<and> fst e \<notin> set (evicted (max_conversations s) ?X)) (conversations s)"
    by (simp add: cleanup_age_filter)
  finally show ?thesis by blast
qed

lemma step_cleanup: "step_ok s (cleanup_old_conversations s t now)"
proof -
  { assume ok: "store_ok s"
    then obtain P where P: "conversations (cleanup_old_conversations s t now) = filter P (conversations s)"
      using cleanup_is_filter[of s t now] by (auto simp: store_ok_def)
    have "store_ok (cleanup_old_conversations s t now)"
      using ok unfolding store_ok_def P cleanup_next_obj
      by (auto simp: distinct_map_filter)
    moreover have "no_revival s (cleanup_old_conversations s t now)"
      unfolding no_revival_def P cleanup_next_obj
    proof (intro conjI ballI impI)
      show "next_obj s \<le> next_obj s" by simp
    next
      fix e' assume "e' \<in> set (filter P (conversations s))"
      then have "e' \<in> set (conversations s)" by simp
      then show "\<exists>e \<in> set (conversations s). fst e = fst e' \<and> obj_id (snd e) = obj_id (snd e')
                 \<and> (is_active (snd e') \<longrightarrow> is_active (snd e))" by blast
    qed
    ultimately have "store_ok (cleanup_old_conversations s t now)
                     \<and> no_revival s (cleanup_old_conversations s t now)" .. }
  then show ?thesis by (simp add: step_ok_def)
qed


lemma update_set_sub: "set (AList.update k v al) \<subseteq> insert (k, v) (set al)"
  by (induction al) auto

lemma update_map_same:
  "map_of al k = Some c \<Longrightarrow> f c' = f c \<Longrightarrow>
     map (\<lambda>e. f (snd e)) (AList.update k c' al) = map (\<lambda>e. f (snd e)) al"
  by (induction al) (auto split: if_splits)

lemma update_keys_same:
  "map_of al k = Some c \<Longrightarrow> map fst (AList.update k c' al) = map fst al"
  by (induction al) (auto split: if_splits)

lemma step_update:
  assumes "map_of (conversations s) k = Some c"
      and "obj_id c' = obj_id c" "call_sid c' = call_sid c" "is_active c' \<longrightarrow> is_active c"
  shows "step_ok s (s\<lparr>conversations := AList.update k c' (conversations s)\<rparr>)"
proof -
  let ?al = "conversations s"
  let ?s' = "s\<lparr>conversations := AList.update k c' ?al\<rparr>"
  from assms(1) have kc: "(k, c) \<in> set ?al" by (rule map_of_SomeD)
  { assume ok: "store_ok s"
    have mem: "\<And>e'. e' \<in> set (AList.update k c' ?al) \<Longrightarrow> e' = (k, c') \<or> e' \<in> set ?al"
      using update_set_sub[of k c' ?al] by auto
    have keys: "map fst (AList.update k c' ?al) = map fst ?al"
      by (rule update_keys_same[OF assms(1)])
    have ids: "map (\<lambda>e. obj_id (snd e)) (AList.update k c' ?al) = map (\<lambda>e. obj_id (snd e)) ?al"
      by (rule update_map_same[OF assms(1) assms(2)])
    from ok kc have c: "obj_id c < next_obj s" "call_sid c = k" by (auto simp: store_ok_def)
    have "store_ok ?s'"
      unfolding store_ok_def
    proof (intro conjI ballI)
      show "distinct (map fst (conversations ?s'))" using ok keys by (simp add: store_ok_def)
      show "distinct (map (\<lambda>e. obj_id (snd e)) (conversations ?s'))" using ok ids by (simp add: store_ok_def)
    next
      fix e assume "e \<in> set (conversations ?s')"
      then have "e = (k, c') \<or> e \<in> set ?al" using mem by simp
      then show "obj_id (snd e) < next_obj ?s'" using c assms(2) ok by (auto simp: store_ok_def)
    next
      fix e assume "e \<in> set (conversations ?s')"
      then have "e = (k, c') \<or> e \<in> set ?al" using mem by simp
      then show "call_sid (snd e) = fst e" using c assms(3) ok by (auto simp: store_ok_def)
    qed
    moreover have "no_revival s ?s'"
      unfolding no_revival_def
    proof (intro conjI ballI impI)
      show "next_obj s \<le> next_obj ?s'" by simp
    next
      fix e' assume "e' \<in> set (conversations ?s')"
      then have "e' = (k, c') \<or> e' \<in> set ?al" using mem by simp
      then show "\<exists>e \<in> set (conversations s). fst e = fst e' \<and> obj_id (snd e) = obj_id (snd e')
                 \<and> (is_active (snd e') \<longrightarrow> is_active (snd e))"
      proof
        assume "e' = (k, c')"
        with kc assms(2,4) show ?thesis by (intro bexI[of _ "(k, c)"]) auto
      next
        assume "e' \<in> set ?al"
        then show ?thesis by blast
      qed
    qed
    ultimately have "store_ok ?s' \<and> no_revival s ?s'" .. }
  then show ?thesis by (simp add: step_ok_def)
qed

lemma step_create:
  assumes "map_of (conversations s) cs = None"
  shows "step_ok s (s\<lparr>conversations := conversations s @ [(cs, new_conversation cs f g nn (next_obj s))],
                      next_obj := Suc (next_obj s)\<rparr>)"
proof -
  let ?new = "new_conversation cs f g nn (next_obj s)"
  let ?s' = "s\<lparr>conversations := conversations s @ [(cs, ?new)], next_obj := Suc (next_obj s)\<rparr>"
  from assms have notin: "cs \<notin> fst ` set (conversations s)" by (simp add: map_of_None_keys)
  have nid: "obj_id ?new = next_obj s" "call_sid ?new = cs" by (simp_all add: new_conversation_def)
  { assume ok: "store_ok s"
    then have lt: "\<forall>e \<in> set (conversations s). obj_id (snd e) < next_obj s" by (simp add: store_ok_def)
    then have idnew: "next_obj s \<notin> (\<lambda>e. obj_id (snd e)) ` set (conversations s)" by auto
    have "store_ok ?s'"
      using ok notin idnew nid unfolding store_ok_def by (auto simp: less_Suc_eq)
    moreover have "no_revival s ?s'"
      unfolding no_revival_def
    proof (intro conjI ballI impI)
      show "next_obj s \<le> next_obj ?s'" by simp
    next
      fix e' assume e': "e' \<in> set (conversations ?s')" "obj_id (snd e') < next_obj s"
      then have "e' \<in> set (conversations s)" using nid by auto
      then show "\<exists>e \<in> set (conversations s). fst e = fst e' \<and> obj_id (snd e) = obj_id (snd e')
                 \<and> (is_active (snd e') \<longrightarrow> is_active (snd e))" by blast
    qed
    ultimately have "store_ok ?s' \<and> no_revival s ?s'" .. }
  then show ?thesis by (simp add: step_ok_def)
qed

lemma step_get_conversation: "step_ok s (snd (get_conversation s cs f g rd))"
proof -
  obtain t nc nn where rd: "rd = (t, nc, nn)" by (cases rd)
  let ?s1 = "cleanup_old_conversations s t nc"
  have c: "step_ok s ?s1" by (rule step_cleanup)
  show ?thesis
  proof (cases "map_of (conversations ?s1) cs")
    case None
    from step_create[OF None, of f g nn] c show ?thesis
      unfolding rd by (simp add: get_conversation_created[OF None]) (rule step_ok_trans)
  next
    case (Some conv)
    with c show ?thesis unfolding rd by (simp add: get_conversation_found)
  qed
qed

lemma step_add_message: "step_ok s (snd (add_message s cs r body md rd now_ts now_act))"
proof -
  let ?s1 = "snd (get_conversation s cs None None rd)"
  let ?conv = "fst (get_conversation s cs None None rd)"
  have st: "map_of (conversations ?s1) cs = Some ?conv" by (rule get_conversation_stored)
  have "step_ok ?s1 (snd (add_message s cs r body md rd now_ts now_act))"
    unfolding add_message_unfold snd_conv by (rule step_update[OF st]) simp_all
  with step_get_conversation[of s cs None None rd] show ?thesis by (rule step_ok_trans)
qed

lemma step_end: "step_ok s (snd (end_conversation s cs now_end now_dur))"
proof (cases "map_of (conversations s) cs")
  case None
  then show ?thesis by (simp add: end_conversation_def step_ok_refl)
next
  case (Some conv)
  have "step_ok s (s\<lparr>conversations := AList.update cs
          (conv\<lparr>is_active := False,
                metadata := AList.update ''duration'' (PFloat (total_seconds (now_dur - start_time conv)))
                              (AList.update ''end_time'' (PIso now_end) (metadata conv))\<rparr>)
          (conversations s)\<rparr>)"
    by (rule step_update[OF Some]) simp_all
  then show ?thesis using Some by (simp add: end_conversation_def Let_def)
qed

lemma step_stats: "step_ok s (snd (get_conversation_stats s cs sr))"
  by (cases sr) (simp add: get_conversation_stats_unfold step_get_conversation)

lemma step_search_loop: "step_ok s (snd (search_loop py q limit clk len it s results))"
proof (induction len arbitrary: it s results)
  case 0
  show ?case by (simp add: step_ok_refl)
next
  case (Suc len)
  show ?case
  proof (cases "length (conversations s) \<noteq> di_used it")
    case True
    show ?thesis unfolding search_loop_size[OF True] by (simp add: step_ok_refl)
  next
    case False
    then have same: "length (conversations s) = di_used it" by simp
    show ?thesis
    proof (cases "dropWhile (\<lambda>sl. sl = None) (ahead it)")
      case Nil
      show ?thesis unfolding search_loop_end[OF same Nil] by (simp add: step_ok_refl)
    next
      case (Cons slot rest)
      show ?thesis
      proof (cases "first_match (str_lower py) q (messages (snd (the slot)))")
        case None
        show ?thesis
          unfolding search_loop_nomatch[OF same Cons None]
          using Suc.IH by (simp add: step_ok_refl)
      next
        case (Some found)
        let ?st = "get_conversation_stats s (call_sid (snd (the slot))) (clk (length results))"
        let ?results' = "results @ [(fst ?st)\<lparr>matching_message := Some found\<rparr>]"
        have s1: "step_ok s (snd ?st)" by (rule step_stats)
        have rec: "step_ok s (snd (search_loop py q limit clk len
                     (iter_after_call py s (clk (length results)) (snd ?st) (next_iter it rest))
                     (snd ?st) ?results'))"
          using s1 Suc.IH by (rule step_ok_trans)
        show ?thesis
          unfolding search_loop_match[OF same Cons Some] using s1 rec by simp
      qed
    qed
  qed
qed

lemma step_exec: "step_ok s (exec s op)"
proof (cases op)
  case (GetOrCreate cs f g rd)
  then show ?thesis by (simp add: step_get_conversation)
next
  case (AppendMessage cs r body md rd now_ts now_act)
  then show ?thesis by (simp add: step_add_message)
next
  case (GetHistory cs limit rd)
  then show ?thesis by (simp add: get_history_def case_prod_unfold step_get_conversation)
next
  case (EndConversation cs now_end now_dur)
  then show ?thesis by (simp add: step_end)
next
  case (Stats cs sr)
  then show ?thesis by (simp add: step_stats)
next
  case (Search py query limit clk)
  then show ?thesis by (simp add: search_conversations_def step_search_loop)
next
  case (Export cs rd)
  then show ?thesis by (simp add: export_conversation_def case_prod_unfold step_get_conversation)
next
  case (EvictionPass t now)
  then show ?thesis by (simp add: step_cleanup)
qed

lemma step_run: "step_ok s (run s ops)"
proof (induction ops arbitrary: s)
  case Nil
  show ?case by (simp add: run_def step_ok_refl)
next
  case (Cons op ops)
  have "step_ok s (exec s op)" by (rule step_exec)
  moreover have "step_ok (exec s op) (run (exec s op) ops)" by (rule Cons.IH)
  ultimately have "step_ok s (run (exec s op) ops)" by (rule step_ok_trans)
  then show ?case by (simp add: run_def)
qed

lemma store_ok_init: "store_ok (init_manager maxc interval t0)"
  by (simp add: store_ok_def init_manager_def)

lemma store_ok_reachable: "store_ok (run (init_manager maxc interval t0) ops)"
  using step_run[of "init_manager maxc interval t0" ops] store_ok_init
  by (simp add: step_ok_def)

lemma ex_ops1_eval:
  "run (init_manager 1000 3600 0) ex_ops1 =
     \<lparr>conversations = [(''CA1'', ex_ended)], max_conversations = 1000, cleanup_interval = 3600,
      last_cleanup = 0, next_obj = 1\<rparr>"
  by code_simp

lemma ex_ops2_eval:
  "map (\<lambda>e. (fst e, obj_id (snd e), is_active (snd e), map content (messages (snd e))))
     (conversations (run (run (init_manager 1000 3600 0) ex_ops1) ex_ops2))
   = [(''CA1'', 0, False, [''Hello''])]"
  by code_simp

section \<open>Histories across eviction passes\<close>















lemma ex_ops3_eval:
  "run (init_manager 1000 3600 0) ex_ops3 =
     \<lparr>conversations = [(''CA1'', ex_ended), (''CA2'', ex_second)], max_conversations = 1000,
      cleanup_interval = 3600, last_cleanup = 0, next_obj = 2\<rparr>"
  by code_simp

lemma cleanup_age_length: "length (cleanup_age now convs) \<le> length convs"
  by (simp add: cleanup_age_filter)

lemma cleanup_recent:
  assumes d: "distinct (map fst (conversations s))" and m: "(k, c) \<in> set (conversations s)"
    and r: "\<not> start_time c < now - timedelta_hours 24"
    and cap: "int (length (conversations s)) \<le> max_conversations s"
  shows "(k, c) \<in> set (conversations (cleanup_old_conversations s t now))"
proof -
  have a: "(k, c) \<in> set (cleanup_age now (conversations s))"
    using m r by (simp add: cleanup_age_mem[OF d])
  have "int (length (cleanup_age now (conversations s))) \<le> max_conversations s"
    using cleanup_age_length[of now "conversations s"] cap by linarith
  then have "cleanup_capacity (max_conversations s) (cleanup_age now (conversations s))
               = cleanup_age now (conversations s)"
    by (simp add: cleanup_capacity_def)
  with a m show ?thesis by (simp add: cleanup_conversations)
qed

lemma cleanup_fields:
  "max_conversations (cleanup_old_conversations s t now) = max_conversations s"
  "cleanup_interval (cleanup_old_conversations s t now) = cleanup_interval s"
  by (simp_all add: cleanup_old_conversations_def)

section \<open>Evaluating the example stores\<close>

lemma ex_third_active_eval:
  "ex_third_active =
     \<lparr>conversations = [(''A'', ex_conv ''A'' 10 False [] 0), (''B'', ex_conv ''B'' 20 False [] 1),
                       (''C'', ex_conv ''C'' 30 True [] 2)],
      max_conversations = 2, cleanup_interval = 3600, last_cleanup = 0, next_obj = 3\<rparr>"
  by (simp add: ex_third_active_def ex_two_inactive_def get_conversation_def
        cleanup_old_conversations_def new_conversation_def or_unknown_def ex_conv_def Let_def)

lemma ex_third_active_pass:
  "conversations (cleanup_old_conversations ex_third_active 4000 40)
     = [(''B'', ex_conv ''B'' 20 False [] 1), (''C'', ex_conv ''C'' 30 True [] 2)]"
  by (simp add: ex_third_active_eval cleanup_old_conversations_def cleanup_capacity_def
        cleanup_age_def old_conversations_def timedelta_hours_def ex_conv_def)

lemma ex_two_active_eval:
  "ex_two_active =
     \<lparr>conversations = [(''CA1'', ex_conv ''CA1'' 1000000 True [] 0), (''CA2'', ex_conv ''CA2'' 2000000 True [] 1)],
      max_conversations = 1, cleanup_interval = 3600, last_cleanup = 0, next_obj = 2\<rparr>"
  by (simp add: ex_two_active_def init_manager_def get_conversation_def
        cleanup_old_conversations_def new_conversation_def or_unknown_def ex_conv_def Let_def)

lemma length_filter_split:
  "length xs = length (filter P xs) + length (filter (\<lambda>x. \<not> P x) xs)"
  by (simp add: sum_length_filter_compl)

lemma length_filter_filter_le:
  "length (filter P (filter Q xs)) \<le> length (filter P xs)"
  by (induction xs) auto

lemma capacity_bound_arith:
  fixes maxc :: int and x a i r :: nat
  assumes "r = x - min (nat (int x - maxc)) i" "x = a + i"
  shows "int r \<le> max maxc (int a)"
proof (cases "nat (int x - maxc) \<le> i")
  case True
  then have "r = x - nat (int x - maxc)" using assms(1) by simp
  then show ?thesis using True assms(2) by linarith
next
  case False
  then have "r = x - i" using assms(1) by simp
  then show ?thesis using assms(2) by linarith
qed

section \<open>The eviction pass\<close>

text \<open>
  C3. The eviction pass never removes an active conversation and never adds or changes
  one. When it is not throttled, it ends with the store at or under the cap or with no
  inactive conversation left; every conversation the capacity sweep removed started no
  later than every inactive conversation it kept; and the sweep removes nothing once the
  store is down to the cap. The stored keys are distinct, as in any dictionary.
\<close>

theorem eviction_keeps_active:
  assumes "distinct (map fst (conversations s))"
  shows "(\<forall>(k, c) \<in> set (conversations s).
            is_active c \<longrightarrow> (k, c) \<in> set (conversations (cleanup_old_conversations s t now)))
       \<and> set (conversations (cleanup_old_conversations s t now)) \<subseteq> set (conversations s)
       \<and> (\<not> t - last_cleanup s < real_of_int (cleanup_interval s) \<longrightarrow>
            (int (length (conversations (cleanup_old_conversations s t now))) \<le> max_conversations s
               \<or> (\<forall>(k, c) \<in> set (conversations (cleanup_old_conversations s t now)). is_active c))
          \<and> (\<forall>(k, c) \<in> set (cleanup_age now (conversations s))
                            - set (conversations (cleanup_old_conversations s t now)).
               \<forall>(k', c') \<in> set (conversations (cleanup_old_conversations s t now)).
                 \<not> is_active c' \<longrightarrow> start_time c \<le> start_time c')
          \<and> (conversations (cleanup_old_conversations s t now) \<noteq> cleanup_age now (conversations s)
                \<longrightarrow> max_conversations s \<le> int (length (conversations (cleanup_old_conversations s t now)))))"
proof -
  let ?X = "cleanup_age now (conversations s)"
  let ?R = "cleanup_capacity (max_conversations s) ?X"
  have dX: "distinct (map fst ?X)" by (rule cleanup_age_distinct[OF assms])
  have a: "\<forall>(k, c) \<in> set (conversations s).
            is_active c \<longrightarrow> (k, c) \<in> set (conversations (cleanup_old_conversations s t now))"
    using cleanup_active[OF assms] by blast
  have b: "set (conversations (cleanup_old_conversations s t now)) \<subseteq> set (conversations s)"
    by (rule cleanup_subset[OF assms])
  have c1: "int (length ?R) \<le> max_conversations s \<or> (\<forall>(k, c) \<in> set ?R. is_active c)"
    using cleanup_capacity_inactive_left[OF dX] by blast
  have c2: "\<forall>(k, c) \<in> set ?X - set ?R. \<forall>(k', c') \<in> set ?R. \<not> is_active c' \<longrightarrow> start_time c \<le> start_time c'"
    using cleanup_capacity_order[OF dX] by blast
  have c3: "?R \<noteq> ?X \<longrightarrow> max_conversations s \<le> int (length ?R)"
    using cleanup_capacity_floor[OF dX] by blast
  show ?thesis
  proof (cases "t - last_cleanup s < real_of_int (cleanup_interval s)")
    case True
    with a b show ?thesis by simp
  next
    case False
    then have eq: "conversations (cleanup_old_conversations s t now) = ?R"
      by (simp add: cleanup_conversations)
    show ?thesis using a b c1 c2 c3 unfolding eq by blast
  qed
qed

theorem eviction_keeps_active_witness:
  "distinct (map fst (conversations ex_third_active))
   \<and> \<not> 4000 - last_cleanup ex_third_active < real_of_int (cleanup_interval ex_third_active)
   \<and> (''C'', ex_conv ''C'' 30 True [] 2) \<in> set (conversations (cleanup_old_conversations ex_third_active 4000 40))
   \<and> int (length (conversations (cleanup_old_conversations ex_third_active 4000 40)))
        \<le> max_conversations ex_third_active
   \<and> conversations (cleanup_old_conversations ex_third_active 4000 40)
        = [(''B'', ex_conv ''B'' 20 False [] 1), (''C'', ex_conv ''C'' 30 True [] 2)]"
  using eviction_keeps_active [of ex_third_active 4000 40] ex_third_active_pass
  by (simp add: ex_third_active_eval)

text \<open>
  C6. After the age-based sweep a stored conversation is still there exactly when it is
  active or did not start more than 24 hours before the current time. An inactive
  conversation that started earlier than that is gone after any pass that is not
  throttled; a conversation inside the 24 hours survives the whole pass whenever the
  store fits the cap after the age sweep.
\<close>

theorem age_sweep_spec:
  assumes "distinct (map fst (conversations s))" and "(k, c) \<in> set (conversations s)"
  shows "((k, c) \<in> set (cleanup_age now (conversations s))
            \<longleftrightarrow> is_active c \<or> \<not> start_time c < now - timedelta_hours 24)
       \<and> (\<not> is_active c \<and> start_time c < now - timedelta_hours 24
            \<and> \<not> t - last_cleanup s < real_of_int (cleanup_interval s)
          \<longrightarrow> (k, c) \<notin> set (conversations (cleanup_old_conversations s t now)))
       \<and> (\<not> start_time c < now - timedelta_hours 24
            \<and> int (length (cleanup_age now (conversations s))) \<le> max_conversations s
          \<longrightarrow> (k, c) \<in> set (conversations (cleanup_old_conversations s t now)))"
proof -
  let ?X = "cleanup_age now (conversations s)"
  have dX: "distinct (map fst ?X)" by (rule cleanup_age_distinct[OF assms(1)])
  have mem: "(k, c) \<in> set ?X \<longleftrightarrow> is_active c \<or> \<not> start_time c < now - timedelta_hours 24"
    using assms by (simp add: cleanup_age_mem)
  have sub: "set (cleanup_capacity (max_conversations s) ?X) \<subseteq> set ?X"
    by (rule cleanup_capacity_subset[OF dX])
  have gone: "\<not> is_active c \<and> start_time c < now - timedelta_hours 24
            \<and> \<not> t - last_cleanup s < real_of_int (cleanup_interval s)
          \<longrightarrow> (k, c) \<notin> set (conversations (cleanup_old_conversations s t now))"
    using mem sub by (auto simp: cleanup_conversations)
  have fits: "int (length ?X) \<le> max_conversations s \<Longrightarrow> cleanup_capacity (max_conversations s) ?X = ?X"
    by (simp add: cleanup_capacity_def)
  have kept: "\<not> start_time c < now - timedelta_hours 24
            \<and> int (length ?X) \<le> max_conversations s
          \<longrightarrow> (k, c) \<in> set (conversations (cleanup_old_conversations s t now))"
    using mem fits assms(2) by (auto simp: cleanup_conversations)
  from mem gone kept show ?thesis by blast
qed

theorem age_sweep_spec_witness:
  "distinct (map fst (conversations ex_aged))
   \<and> (''OLD'', ex_conv ''OLD'' 270000000000 False [] 0) \<in> set (conversations ex_aged)
   \<and> (''NEW'', ex_conv ''NEW'' 277200000000 False [] 1) \<in> set (conversations ex_aged)
   \<and> start_time (ex_conv ''OLD'' 270000000000 False [] 0) = 360000000000 - timedelta_hours 25
   \<and> start_time (ex_conv ''NEW'' 277200000000 False [] 1) = 360000000000 - timedelta_hours 23
   \<and> (''OLD'', ex_conv ''OLD'' 270000000000 False [] 0)
        \<notin> set (conversations (cleanup_old_conversations ex_aged 4000 360000000000))
   \<and> (''NEW'', ex_conv ''NEW'' 277200000000 False [] 1)
        \<in> set (conversations (cleanup_old_conversations ex_aged 4000 360000000000))"
  using age_sweep_spec [of ex_aged "''OLD''" "ex_conv ''OLD'' 270000000000 False [] 0" 360000000000 4000]
        age_sweep_spec [of ex_aged "''NEW''" "ex_conv ''NEW'' 277200000000 False [] 1" 360000000000 4000]
  by (simp add: ex_aged_def ex_conv_def timedelta_hours_def cleanup_age_def old_conversations_def)

text \<open>
  C8, as stated: after an eviction pass that is not throttled the store holds at most
  \<open>max_conversations\<close> entries. Two active conversations under a cap of one
  refute it: the pass keeps both.
\<close>

theorem store_size_counterexample:
  "\<not> 4000 - last_cleanup ex_two_active < real_of_int (cleanup_interval ex_two_active)
   \<and> \<not> int (length (conversations (cleanup_old_conversations ex_two_active 4000 4000000000)))
          \<le> max_conversations ex_two_active"
  by (simp add: ex_two_active_eval cleanup_old_conversations_def cleanup_capacity_def
        cleanup_age_def old_conversations_def timedelta_hours_def ex_conv_def)

text \<open>
  C8, amended. After an eviction pass that is not throttled, the number of stored
  conversations is at most the larger of \<open>max_conversations\<close> and the number of active
  conversations: only active conversations can hold the store above the cap.
\<close>

theorem store_size_after_eviction:
  assumes "distinct (map fst (conversations s))"
    and "\<not> t - last_cleanup s < real_of_int (cleanup_interval s)"
  shows "int (length (conversations (cleanup_old_conversations s t now)))
           \<le> max (max_conversations s)
                 (int (length (filter (\<lambda>e. is_active (snd e)) (conversations s))))"
proof -
  let ?X = "cleanup_age now (conversations s)"
  let ?R = "cleanup_capacity (max_conversations s) ?X"
  let ?I = "filter (\<lambda>e. \<not> is_active (snd e)) ?X"
  let ?A = "filter (\<lambda>e. is_active (snd e)) ?X"
  have dX: "distinct (map fst ?X)" by (rule cleanup_age_distinct[OF assms(1)])
  have len: "length ?R = length ?X - min (nat (int (length ?X) - max_conversations s)) (length ?I)"
    by (rule cleanup_capacity_length[OF dX])
  have split: "length ?X = length ?A + length ?I"
    by (rule length_filter_split)
  have act: "length ?A \<le> length (filter (\<lambda>e. is_active (snd e)) (conversations s))"
    unfolding cleanup_age_filter by (rule length_filter_filter_le)
  have "int (length ?R) \<le> max (max_conversations s) (int (length ?A))"
    using len split by (rule capacity_bound_arith)
  with act have "int (length ?R)
      \<le> max (max_conversations s) (int (length (filter (\<lambda>e. is_active (snd e)) (conversations s))))"
    by linarith
  then show ?thesis using assms(2) by (simp add: cleanup_conversations)
qed

theorem store_size_after_eviction_witness:
  "distinct (map fst (conversations ex_third_active))
   \<and> \<not> 4000 - last_cleanup ex_third_active < real_of_int (cleanup_interval ex_third_active)
   \<and> int (length (conversations (cleanup_old_conversations ex_third_active 4000 40)))
        \<le> max (max_conversations ex_third_active)
              (int (length (filter (\<lambda>e. is_active (snd e)) (conversations ex_third_active))))
   \<and> max (max_conversations ex_third_active)
              (int (length (filter (\<lambda>e. is_active (snd e)) (conversations ex_third_active)))) = 2"
  using store_size_after_eviction [of ex_third_active 4000 40]
  by (simp add: ex_third_active_eval ex_conv_def)

section \<open>Ending a conversation\<close>

text \<open>
  C4. \<open>end_conversation\<close> on a stored call_sid returns True and replaces the stored
  conversation by one that is inactive, carries \<open>end_time\<close> (the ISO string of the
  first clock reading) and \<open>duration\<close> (second clock reading minus \<open>start_time\<close>, in
  seconds) in its metadata, and is otherwise the same. On a call_sid that is not stored
  it returns False and the manager is unchanged.
\<close>

theorem end_conversation_spec:
  "(map_of (conversations s) cs = Some conv \<longrightarrow>
      (\<exists>conv'. end_conversation s cs now_end now_dur
                 = (True, s\<lparr>conversations := AList.update cs conv' (conversations s)\<rparr>)
         \<and> map_of (conversations (snd (end_conversation s cs now_end now_dur))) cs = Some conv'
         \<and> \<not> is_active conv'
         \<and> map_of (metadata conv') ''end_time'' = Some (PIso now_end)
         \<and> map_of (metadata conv') ''duration''
             = Some (PFloat (total_seconds (now_dur - start_time conv)))
         \<and> conv'\<lparr>is_active := is_active conv, metadata := metadata conv\<rparr> = conv))
   \<and> (map_of (conversations s) cs = None \<longrightarrow>
         end_conversation s cs now_end now_dur = (False, s))"
  by (simp add: end_conversation_def update_conv')

theorem end_conversation_spec_witness:
  "map_of (conversations ex_one) ''CA1'' = Some (ex_conv ''CA1'' 1000000 True [] 0)
   \<and> fst (end_conversation ex_one ''CA1'' 4000000 4000000)
   \<and> map_of (conversations (snd (end_conversation ex_one ''CA1'' 4000000 4000000))) ''CA1''
        = Some ((ex_conv ''CA1'' 1000000 False [] 0)
                 \<lparr>metadata := [(''end_time'', PIso 4000000), (''duration'', PFloat 3)]\<rparr>)
   \<and> map_of (conversations ex_one) ''CA2'' = None
   \<and> end_conversation ex_one ''CA2'' 5000000 5000000 = (False, ex_one)"
  using end_conversation_spec [of ex_one "''CA1''" "ex_conv ''CA1'' 1000000 True [] 0" 4000000 4000000]
    end_conversation_spec [of ex_one "''CA2''" undefined 5000000 5000000]
  by (simp add: ex_one_eval end_conversation_def ex_conv_def total_seconds_def)

text \<open>
  C9. Ending a stored conversation twice: the second call returns True again, the
  conversation stays inactive, and \<open>end_time\<close> and \<open>duration\<close> hold the values of the
  second call's clock readings.
\<close>

theorem end_conversation_twice:
  assumes "map_of (conversations s) cs = Some conv"
  shows "fst (end_conversation s cs e1 d1)
       \<and> fst (end_conversation (snd (end_conversation s cs e1 d1)) cs e2 d2)
       \<and> (\<exists>conv2. map_of (conversations (snd (end_conversation (snd (end_conversation s cs e1 d1)) cs e2 d2))) cs
                     = Some conv2
            \<and> \<not> is_active conv2
            \<and> map_of (metadata conv2) ''end_time'' = Some (PIso e2)
            \<and> map_of (metadata conv2) ''duration'' = Some (PFloat (total_seconds (d2 - start_time conv))))"
  using assms by (simp add: end_conversation_def update_conv')

theorem end_conversation_twice_witness:
  "map_of (conversations ex_one) ''CA1'' = Some (ex_conv ''CA1'' 1000000 True [] 0)
   \<and> fst (end_conversation (snd (end_conversation ex_one ''CA1'' 4000000 4000000)) ''CA1'' 9000000 9000000)
   \<and> map_of (conversations (snd (end_conversation (snd (end_conversation ex_one ''CA1'' 4000000 4000000))
                                    ''CA1'' 9000000 9000000))) ''CA1''
        = Some ((ex_conv ''CA1'' 1000000 False [] 0)
                 \<lparr>metadata := [(''end_time'', PIso 9000000), (''duration'', PFloat 8)]\<rparr>)"
  using end_conversation_twice [of ex_one "''CA1''" "ex_conv ''CA1'' 1000000 True [] 0" 4000000 4000000 9000000 9000000]
  by (simp add: ex_one_eval end_conversation_def ex_conv_def total_seconds_def)

section \<open>History, statistics\<close>




text \<open>
  C10. \<open>add_message\<close> returns True for any role string and stores the message, role
  unchanged, as the last message of the conversation. \<open>get_conversation_stats\<close> reports
  the length of the message list and the numbers of messages whose role equals
  \<open>user\<close> and \<open>assistant\<close>; when the conversation it reports on holds a message
  with any other role, the two counts add up to strictly less than the total. An active
  stored conversation is the one reported on.
\<close>

theorem stats_counts_roles:
  "fst (add_message s cs r txt md rd now_ts now_act)
   \<and> (\<exists>c. map_of (conversations (snd (add_message s cs r txt md rd now_ts now_act))) cs = Some c
          \<and> messages c \<noteq> []
          \<and> last (messages c) = \<lparr>role = r, content = txt, timestamp = now_ts, msg_metadata = or_empty md\<rparr>)
   \<and> (\<exists>c. map_of (conversations (snd (get_conversation_stats s cs sr))) cs = Some c
          \<and> total_messages (fst (get_conversation_stats s cs sr)) = length (messages c)
          \<and> user_messages (fst (get_conversation_stats s cs sr))
               = length (filter (\<lambda>m. role m = ''user'') (messages c))
          \<and> assistant_messages (fst (get_conversation_stats s cs sr))
               = length (filter (\<lambda>m. role m = ''assistant'') (messages c))
          \<and> ((\<exists>m \<in> set (messages c). role m \<noteq> ''user'' \<and> role m \<noteq> ''assistant'')
                \<longrightarrow> user_messages (fst (get_conversation_stats s cs sr))
                      + assistant_messages (fst (get_conversation_stats s cs sr))
                    < total_messages (fst (get_conversation_stats s cs sr))))
   \<and> (distinct (map fst (conversations s)) \<and> map_of (conversations s) cs = Some c0 \<and> is_active c0
        \<and> (\<exists>m \<in> set (messages c0). role m \<noteq> ''user'' \<and> role m \<noteq> ''assistant'')
        \<longrightarrow> user_messages (fst (get_conversation_stats s cs sr))
              + assistant_messages (fst (get_conversation_stats s cs sr))
            < total_messages (fst (get_conversation_stats s cs sr)))"
proof -
  obtain gc now_dur where sr: "sr = (gc, now_dur)" by (cases sr)
  let ?c = "fst (get_conversation s cs None None gc)"
  have a: "fst (add_message s cs r txt md rd now_ts now_act)"
    by (simp add: add_message_unfold)
  have b: "\<exists>c. map_of (conversations (snd (add_message s cs r txt md rd now_ts now_act))) cs = Some c
          \<and> messages c \<noteq> []
          \<and> last (messages c) = \<lparr>role = r, content = txt, timestamp = now_ts, msg_metadata = or_empty md\<rparr>"
    by (simp add: add_message_unfold update_conv')
  have st: "map_of (conversations (snd (get_conversation_stats s cs sr))) cs = Some ?c"
    unfolding sr by (simp add: get_conversation_stats_unfold get_conversation_stored)
  have strict: "(\<exists>m \<in> set (messages ?c). role m \<noteq> ''user'' \<and> role m \<noteq> ''assistant'')
                \<longrightarrow> user_messages (fst (get_conversation_stats s cs sr))
                      + assistant_messages (fst (get_conversation_stats s cs sr))
                    < total_messages (fst (get_conversation_stats s cs sr))"
    unfolding sr using role_count_strict[of _ "messages ?c"]
    by (auto simp: get_conversation_stats_unfold)
  have c: "\<exists>c. map_of (conversations (snd (get_conversation_stats s cs sr))) cs = Some c
          \<and> total_messages (fst (get_conversation_stats s cs sr)) = length (messages c)
          \<and> user_messages (fst (get_conversation_stats s cs sr))
               = length (filter (\<lambda>m. role m = ''user'') (messages c))
          \<and> assistant_messages (fst (get_conversation_stats s cs sr))
               = length (filter (\<lambda>m. role m = ''assistant'') (messages c))
          \<and> ((\<exists>m \<in> set (messages c). role m \<noteq> ''user'' \<and> role m \<noteq> ''assistant'')
                \<longrightarrow> user_messages (fst (get_conversation_stats s cs sr))
                      + assistant_messages (fst (get_conversation_stats s cs sr))
                    < total_messages (fst (get_conversation_stats s cs sr)))"
    using st strict unfolding sr by (simp add: get_conversation_stats_unfold)
  have d: "distinct (map fst (conversations s)) \<and> map_of (conversations s) cs = Some c0 \<and> is_active c0
        \<and> (\<exists>m \<in> set (messages c0). role m \<noteq> ''user'' \<and> role m \<noteq> ''assistant'')
        \<longrightarrow> user_messages (fst (get_conversation_stats s cs sr))
              + assistant_messages (fst (get_conversation_stats s cs sr))
            < total_messages (fst (get_conversation_stats s cs sr))"
  proof (intro impI, elim conjE)
    assume h: "distinct (map fst (conversations s))" "map_of (conversations s) cs = Some c0" "is_active c0"
      "\<exists>m \<in> set (messages c0). role m \<noteq> ''user'' \<and> role m \<noteq> ''assistant''"
    obtain t nc nn where gc: "gc = (t, nc, nn)" by (cases gc)
    from cleanup_map_of_active[OF h(1,2,3)] have "?c = c0"
      unfolding gc by (simp add: get_conversation_found)
    with h(4) strict show "user_messages (fst (get_conversation_stats s cs sr))
              + assistant_messages (fst (get_conversation_stats s cs sr))
            < total_messages (fst (get_conversation_stats s cs sr))" by simp
  qed
  from a b c d show ?thesis by blast
qed

theorem stats_counts_roles_witness:
  "distinct (map fst (conversations ex_roles)) \<and> map_of (conversations ex_roles) ''CA1'' = Some ex_roles_conv
   \<and> is_active ex_roles_conv
   \<and> map role (messages ex_roles_conv) = [''user'', ''assistant'', ''system'']
   \<and> user_messages (fst (get_conversation_stats ex_roles ''CA1'' ((4, 4000000, 4000000), 4000001)))
        + assistant_messages (fst (get_conversation_stats ex_roles ''CA1'' ((4, 4000000, 4000000), 4000001)))
      < total_messages (fst (get_conversation_stats ex_roles ''CA1'' ((4, 4000000, 4000000), 4000001)))
   \<and> total_messages (fst (get_conversation_stats ex_roles ''CA1'' ((4, 4000000, 4000000), 4000001))) = 3"
  using stats_counts_roles [of ex_roles "''CA1''" "''system''" "''note''" None "(3, 3000000, 3000000)"
          3000001 3000002 "((4, 4000000, 4000000), 4000001)" ex_roles_conv]
  by (simp add: ex_roles_eval ex_roles_conv_def get_conversation_stats_def get_conversation_def
        cleanup_old_conversations_def Let_def)

text \<open>
  C2, as stated: \<open>get_history\<close> leaves the set of stored conversations and every
  conversation as they were, also for an unknown call_sid. It does not: the lookup of line
  145 runs the eviction pass and is get-or-create. Here the store holds an ended
  conversation and an active one; the call for an unknown call_sid, a hundred hours later,
  returns the empty history, deletes the ended conversation and stores a new one.
\<close>

theorem get_history_evicts_and_creates:
  "map fst (conversations (run (init_manager 1000 3600 0) ex_ops3)) = [''CA1'', ''CA2'']
   \<and> map_of (conversations (run (init_manager 1000 3600 0) ex_ops3)) ''CA9'' = None
   \<and> fst (get_history (run (init_manager 1000 3600 0) ex_ops3) ''CA9'' 10 (4000, 360000000000, 360000000001)) = []
   \<and> map fst (conversations (snd (get_history (run (init_manager 1000 3600 0) ex_ops3) ''CA9'' 10
                                      (4000, 360000000000, 360000000001))))
       = [''CA2'', ''CA9'']
   \<and> conversations (snd (get_history (run (init_manager 1000 3600 0) ex_ops3) ''CA9'' 10
                             (4000, 360000000000, 360000000001)))
       \<noteq> conversations (run (init_manager 1000 3600 0) ex_ops3)"
  by code_simp

text \<open>
  C2, amended. What \<open>get_history\<close> does to the manager is the eviction pass followed,
  when the call_sid is not stored after it, by the insertion of a new empty active
  conversation at the end of the store; nothing else. So every active conversation stays
  stored unchanged, as does every conversation started within the last 24 hours when the
  store does not exceed \<open>max_conversations\<close>; every conversation stored afterwards was
  stored before, unchanged, or is the new one under the requested call_sid; the two limits
  of the manager stay as they are. An unknown call_sid yields the empty history; a known
  call_sid with an active conversation yields the views of its most recent messages and no
  insertion. While the eviction pass is throttled, a known call_sid leaves the manager
  exactly as it was and an unknown one only appends the new conversation.
\<close>

theorem get_history_frame:
  assumes "distinct (map fst (conversations s))"
  shows "snd (get_history s cs limit (t, nc, nn))
           = (if map_of (conversations (cleanup_old_conversations s t nc)) cs = None
              then (cleanup_old_conversations s t nc)
                     \<lparr>conversations := conversations (cleanup_old_conversations s t nc)
                                         @ [(cs, new_conversation cs None None nn (next_obj s))],
                      next_obj := Suc (next_obj s)\<rparr>
              else cleanup_old_conversations s t nc)
       \<and> (\<forall>(k, c) \<in> set (conversations s).
            is_active c
            \<or> (\<not> start_time c < nc - timedelta_hours 24
                \<and> int (length (conversations s)) \<le> max_conversations s)
            \<longrightarrow> (k, c) \<in> set (conversations (snd (get_history s cs limit (t, nc, nn)))))
       \<and> (\<forall>(k, c) \<in> set (conversations (snd (get_history s cs limit (t, nc, nn)))).
            (k, c) \<in> set (conversations s)
            \<or> (k = cs \<and> c = new_conversation cs None None nn (next_obj s)
                \<and> map_of (conversations (cleanup_old_conversations s t nc)) cs = None))
       \<and> (map_of (conversations s) cs = None \<longrightarrow>
            fst (get_history s cs limit (t, nc, nn)) = []
            \<and> conversations (snd (get_history s cs limit (t, nc, nn)))
                = conversations (cleanup_old_conversations s t nc)
                  @ [(cs, new_conversation cs None None nn (next_obj s))])
       \<and> (\<forall>c. map_of (conversations s) cs = Some c \<and> is_active c \<longrightarrow>
            fst (get_history s cs limit (t, nc, nn)) = map view_of (recent_messages limit (messages c))
            \<and> snd (get_history s cs limit (t, nc, nn)) = cleanup_old_conversations s t nc)
       \<and> (t - last_cleanup s < real_of_int (cleanup_interval s) \<longrightarrow>
            (map_of (conversations s) cs \<noteq> None \<longrightarrow> snd (get_history s cs limit (t, nc, nn)) = s)
          \<and> (map_of (conversations s) cs = None \<longrightarrow>
               snd (get_history s cs limit (t, nc, nn))
                 = s\<lparr>conversations := conversations s @ [(cs, new_conversation cs None None nn (next_obj s))],
                      next_obj := Suc (next_obj s)\<rparr>))
       \<and> max_conversations (snd (get_history s cs limit (t, nc, nn))) = max_conversations s
       \<and> cleanup_interval (snd (get_history s cs limit (t, nc, nn))) = cleanup_interval s"
proof -
  let ?s1 = "cleanup_old_conversations s t nc"
  let ?new = "new_conversation cs None None nn (next_obj s)"
  let ?gh = "get_history s cs limit (t, nc, nn)"
  have gh: "snd ?gh = snd (get_conversation s cs None None (t, nc, nn))"
    "fst ?gh = map view_of (recent_messages limit (messages (fst (get_conversation s cs None None (t, nc, nn)))))"
    by (simp_all add: get_history_def case_prod_unfold)
  have sub: "set (conversations ?s1) \<subseteq> set (conversations s)" by (rule cleanup_subset[OF assms])
  have nobj: "next_obj ?s1 = next_obj s" by (rule cleanup_next_obj)
  have p0: "snd ?gh = (if map_of (conversations ?s1) cs = None
              then ?s1\<lparr>conversations := conversations ?s1 @ [(cs, ?new)], next_obj := Suc (next_obj s)\<rparr>
              else ?s1)"
  proof (cases "map_of (conversations ?s1) cs")
    case (Some c)
    then show ?thesis unfolding gh by (simp add: get_conversation_found)
  next
    case None
    then show ?thesis using nobj unfolding gh by (simp add: get_conversation_created)
  qed
  have keep: "set (conversations ?s1) \<subseteq> set (conversations (snd ?gh))"
    unfolding p0 by auto
  have p1: "\<forall>(k, c) \<in> set (conversations s).
            is_active c
            \<or> (\<not> start_time c < nc - timedelta_hours 24
                \<and> int (length (conversations s)) \<le> max_conversations s)
            \<longrightarrow> (k, c) \<in> set (conversations (snd ?gh))"
  proof (intro ballI, clarify)
    fix k c
    assume m: "(k, c) \<in> set (conversations s)"
      and h: "is_active c \<or> (\<not> start_time c < nc - timedelta_hours 24
                \<and> int (length (conversations s)) \<le> max_conversations s)"
    from h have "(k, c) \<in> set (conversations ?s1)"
    proof
      assume "is_active c"
      from cleanup_active[OF assms m this] show ?thesis .
    next
      assume "\<not> start_time c < nc - timedelta_hours 24
                \<and> int (length (conversations s)) \<le> max_conversations s"
      then show ?thesis using cleanup_recent[OF assms m] by blast
    qed
    with keep show "(k, c) \<in> set (conversations (snd ?gh))" by blast
  qed
  have p2: "\<forall>(k, c) \<in> set (conversations (snd ?gh)).
            (k, c) \<in> set (conversations s)
            \<or> (k = cs \<and> c = ?new \<and> map_of (conversations ?s1) cs = None)"
    using sub unfolding p0 by auto
  have p3: "map_of (conversations s) cs = None \<longrightarrow>
            fst ?gh = [] \<and> conversations (snd ?gh) = conversations ?s1 @ [(cs, ?new)]"
  proof
    assume "map_of (conversations s) cs = None"
    from cleanup_absent[OF assms this] have n1: "map_of (conversations ?s1) cs = None" .
    have f: "fst (get_conversation s cs None None (t, nc, nn)) = ?new"
      using n1 nobj by (simp add: get_conversation_created)
    have "fst ?gh = []"
      unfolding gh f by (simp add: new_conversation_def recent_messages_def)
    moreover have "conversations (snd ?gh) = conversations ?s1 @ [(cs, ?new)]"
      unfolding p0 using n1 by simp
    ultimately show "fst ?gh = [] \<and> conversations (snd ?gh) = conversations ?s1 @ [(cs, ?new)]" ..
  qed
  have p4: "\<forall>c. map_of (conversations s) cs = Some c \<and> is_active c \<longrightarrow>
            fst ?gh = map view_of (recent_messages limit (messages c)) \<and> snd ?gh = ?s1"
  proof (intro allI impI, elim conjE)
    fix c
    assume "map_of (conversations s) cs = Some c" "is_active c"
    from cleanup_map_of_active[OF assms this] have "map_of (conversations ?s1) cs = Some c" .
    then show "fst ?gh = map view_of (recent_messages limit (messages c)) \<and> snd ?gh = ?s1"
      unfolding gh by (simp add: get_conversation_found)
  qed
  have p5: "t - last_cleanup s < real_of_int (cleanup_interval s) \<longrightarrow>
            (map_of (conversations s) cs \<noteq> None \<longrightarrow> snd ?gh = s)
          \<and> (map_of (conversations s) cs = None \<longrightarrow>
               snd ?gh = s\<lparr>conversations := conversations s @ [(cs, ?new)], next_obj := Suc (next_obj s)\<rparr>)"
  proof
    assume "t - last_cleanup s < real_of_int (cleanup_interval s)"
    then have same: "?s1 = s" by (rule cleanup_throttled)
    show "(map_of (conversations s) cs \<noteq> None \<longrightarrow> snd ?gh = s)
          \<and> (map_of (conversations s) cs = None \<longrightarrow>
               snd ?gh = s\<lparr>conversations := conversations s @ [(cs, ?new)], next_obj := Suc (next_obj s)\<rparr>)"
      unfolding p0 same by simp
  qed
  have p6: "max_conversations (snd ?gh) = max_conversations s"
    "cleanup_interval (snd ?gh) = cleanup_interval s"
    unfolding p0 by (simp_all add: cleanup_fields)
  from p0 p1 p2 p3 p4 p5 p6 show ?thesis by blast
qed

theorem get_history_frame_witness:
  "distinct (map fst (conversations (run (init_manager 1000 3600 0) ex_ops3)))
   \<and> (''CA2'', ex_second) \<in> set (conversations (run (init_manager 1000 3600 0) ex_ops3))
   \<and> is_active ex_second
   \<and> map_of (conversations (run (init_manager 1000 3600 0) ex_ops3)) ''CA9'' = None
   \<and> fst (get_history (run (init_manager 1000 3600 0) ex_ops3) ''CA9'' 10 (4000, 360000000000, 360000000001)) = []
   \<and> conversations (snd (get_history (run (init_manager 1000 3600 0) ex_ops3) ''CA9'' 10
                             (4000, 360000000000, 360000000001)))
       = [(''CA2'', ex_second), (''CA9'', new_conversation ''CA9'' None None 360000000001 2)]
   \<and> map_of (conversations (run (init_manager 1000 3600 0) ex_ops3)) ''CA2'' = Some ex_second
   \<and> (3::real) - last_cleanup (run (init_manager 1000 3600 0) ex_ops3)
        < real_of_int (cleanup_interval (run (init_manager 1000 3600 0) ex_ops3))
   \<and> fst (get_history (run (init_manager 1000 3600 0) ex_ops3) ''CA2'' 10 (3, 6000000, 6000001)) = []
   \<and> snd (get_history (run (init_manager 1000 3600 0) ex_ops3) ''CA2'' 10 (3, 6000000, 6000001))
       = run (init_manager 1000 3600 0) ex_ops3"
proof -
  let ?s = "run (init_manager 1000 3600 0) ex_ops3"
  have d: "distinct (map fst (conversations ?s))" by (simp add: ex_ops3_eval)
  have pass: "conversations (cleanup_old_conversations ?s 4000 360000000000) = [(''CA2'', ex_second)]"
    by code_simp
  have m9: "map_of (conversations ?s) ''CA9'' = None" by (simp add: ex_ops3_eval)
  have m2: "map_of (conversations ?s) ''CA2'' = Some ex_second" by (simp add: ex_ops3_eval)
  have act: "is_active ex_second" by (simp add: ex_second_def)
  have thr: "(3::real) - last_cleanup ?s < real_of_int (cleanup_interval ?s)" by (simp add: ex_ops3_eval)
  have no: "next_obj ?s = 2" by (simp add: ex_ops3_eval)
  note th9 = get_history_frame [OF d, of "''CA9''" 10 4000 360000000000 360000000001]
  note th2 = get_history_frame [OF d, of "''CA2''" 10 3 6000000 6000001]
  from th9 m9 have a: "fst (get_history ?s ''CA9'' 10 (4000, 360000000000, 360000000001)) = []
     \<and> conversations (snd (get_history ?s ''CA9'' 10 (4000, 360000000000, 360000000001)))
         = conversations (cleanup_old_conversations ?s 4000 360000000000)
           @ [(''CA9'', new_conversation ''CA9'' None None 360000000001 (next_obj ?s))]"
    by blast
  from th2 m2 act have b: "fst (get_history ?s ''CA2'' 10 (3, 6000000, 6000001))
         = map view_of (recent_messages 10 (messages ex_second))" by blast
  have known: "map_of (conversations ?s) ''CA2'' \<noteq> None" using m2 by simp
  from th2 known thr have c: "snd (get_history ?s ''CA2'' 10 (3, 6000000, 6000001)) = ?s" by blast
  have e: "map view_of (recent_messages 10 (messages ex_second)) = []"
    by (simp add: ex_second_def recent_messages_def)
  have mem: "(''CA2'', ex_second) \<in> set (conversations ?s)" by (simp add: ex_ops3_eval)
  show ?thesis using d mem act m9 a pass no m2 thr b c e by simp
qed

section \<open>Search\<close>

text \<open>
  C7. The bound "at most \<open>limit\<close> results" holds for every limit of at least 1
  (\<open>search_bound_from_one\<close>), and a search with limit 1 in a store of five matching
  conversations returns exactly one result (\<open>ex_five_search_one\<close>). At limit 0 the
  code breaks the bound: the length test of line 284 comes after the append of line 281,
  so in the same store the first conversation's summary is returned.
\<close>

theorem search_limit_zero_returns_one:
  "fst (search_conversations (ex_py 0) ex_five ''HeLLo'' 0 ex_clock) = [ex_hit]
   \<and> \<not> int (length (fst (search_conversations (ex_py 0) ex_five ''HeLLo'' 0 ex_clock))) \<le> 0"
  by code_simp

section \<open>Monotonic activity\<close>

text \<open>
  C5. A conversation is active when \<open>get_conversation\<close> creates it. In any state reached
  from an empty manager by store operations, a conversation object that is inactive stays
  inactive through every further sequence of operations (get-or-create, append, history,
  end, stats, search, export, eviction pass) for as long as it is stored, and it stays
  under its key. Objects are told apart by their identity: a conversation that the
  eviction pass removed and a later lookup built anew under the same call_sid is another
  object.
\<close>

theorem is_active_monotonic:
  "(map_of (conversations (cleanup_old_conversations s t nc)) cs = None \<longrightarrow>
      is_active (fst (get_conversation s cs f g (t, nc, nn))))
   \<and> (\<forall>e \<in> set (conversations (run (init_manager maxc interval t0) ops1)).
        \<not> is_active (snd e) \<longrightarrow>
        (\<forall>e' \<in> set (conversations (run (run (init_manager maxc interval t0) ops1) ops2)).
           obj_id (snd e') = obj_id (snd e) \<longrightarrow> \<not> is_active (snd e') \<and> fst e' = fst e))"
proof -
  let ?s1 = "run (init_manager maxc interval t0) ops1"
  let ?s2 = "run ?s1 ops2"
  have a: "map_of (conversations (cleanup_old_conversations s t nc)) cs = None \<longrightarrow>
      is_active (fst (get_conversation s cs f g (t, nc, nn)))"
    by (simp add: get_conversation_created new_conversation_def)
  have ok1: "store_ok ?s1" by (rule store_ok_reachable)
  with step_run[of ?s1 ops2] have nr: "no_revival ?s1 ?s2" by (simp add: step_ok_def)
  have b: "\<forall>e \<in> set (conversations ?s1). \<not> is_active (snd e) \<longrightarrow>
        (\<forall>e' \<in> set (conversations ?s2).
           obj_id (snd e') = obj_id (snd e) \<longrightarrow> \<not> is_active (snd e') \<and> fst e' = fst e)"
  proof (intro ballI impI)
    fix e e' assume e: "e \<in> set (conversations ?s1)" "\<not> is_active (snd e)"
      and e': "e' \<in> set (conversations ?s2)" "obj_id (snd e') = obj_id (snd e)"
    from ok1 e(1) have "obj_id (snd e) < next_obj ?s1" by (simp add: store_ok_def)
    with e'(2) have "obj_id (snd e') < next_obj ?s1" by simp
    with nr e'(1) obtain e0 where e0: "e0 \<in> set (conversations ?s1)" "fst e0 = fst e'"
        "obj_id (snd e0) = obj_id (snd e')" "is_active (snd e') \<longrightarrow> is_active (snd e0)"
      unfolding no_revival_def by blast
    from ok1 have "inj_on (\<lambda>e. obj_id (snd e)) (set (conversations ?s1))"
      by (simp add: store_ok_def distinct_map)
    with e0(1,3) e(1) e'(2) have "e0 = e" by (auto dest: inj_onD)
    with e0 e(2) show "\<not> is_active (snd e') \<and> fst e' = fst e" by auto
  qed
  from a b show ?thesis ..
qed

theorem is_active_monotonic_witness:
  "map_of (conversations (cleanup_old_conversations (init_manager 1000 3600 0) 1 1000000)) ''CA1'' = None
   \<and> is_active (fst (get_conversation (init_manager 1000 3600 0) ''CA1'' None None (1, 1000000, 1000000)))
   \<and> (''CA1'', ex_ended) \<in> set (conversations (run (init_manager 1000 3600 0) ex_ops1))
   \<and> \<not> is_active ex_ended
   \<and> hd (conversations (run (run (init_manager 1000 3600 0) ex_ops1) ex_ops2))
        \<in> set (conversations (run (run (init_manager 1000 3600 0) ex_ops1) ex_ops2))
   \<and> obj_id (snd (hd (conversations (run (run (init_manager 1000 3600 0) ex_ops1) ex_ops2)))) = obj_id ex_ended
   \<and> \<not> is_active (snd (hd (conversations (run (run (init_manager 1000 3600 0) ex_ops1) ex_ops2))))"
proof -
  let ?s1 = "run (init_manager 1000 3600 0) ex_ops1"
  let ?s2 = "run ?s1 ex_ops2"
  note th = is_active_monotonic [of "init_manager 1000 3600 0" 1 1000000 "''CA1''" None None 1000000
                                    1000 3600 0 ex_ops1 ex_ops2]
  have n: "map_of (conversations (cleanup_old_conversations (init_manager 1000 3600 0) 1 1000000)) ''CA1'' = None"
    by (simp add: init_manager_def cleanup_old_conversations_def)
  have e: "(''CA1'', ex_ended) \<in> set (conversations ?s1)" "\<not> is_active ex_ended"
    by (simp_all add: ex_ops1_eval ex_ended_def)
  from ex_ops2_eval have ne: "conversations ?s2 \<noteq> []" by auto
  then have h: "hd (conversations ?s2) \<in> set (conversations ?s2)" by simp
  from ex_ops2_eval ne have id: "obj_id (snd (hd (conversations ?s2))) = obj_id ex_ended"
    by (cases "conversations ?s2") (auto simp: ex_ended_def)
  from th e h id have "\<not> is_active (snd (hd (conversations ?s2)))" by fastforce
  with th n e h id show ?thesis by simp
qed

end
